theory Spec2Isabelle
  imports Complex_Main "HOL-Library.Word"
begin

section \<open>Python values\<close>

text \<open>
  A Python \<^verbatim>\<open>str\<close> is a sequence of Unicode code points: a list of naturals.
  \<open>ustr\<close> reads an ASCII literal as such a string. A Python \<^verbatim>\<open>float\<close> that is
  neither infinite nor a NaN is a real number, and its comparisons are the comparisons of
  the reals; \<^verbatim>\<open>int\<close> is unbounded.
\<close>

type_synonym str = "nat list"

definition ustr :: "string \<Rightarrow> str" where
  "ustr s = map of_char s"

section \<open>SensorDatabase: the derived status labels\<close>

text \<open>
  The labels are the source's string literals, written in Chinese and given here by
  their code points; the constants are named by what the literals say: acidic
  (U+9178 U+6027), alkaline (U+9E7C U+6027), neutral (U+4E2D U+6027), strongly oxidizing
  (U+5F37 U+6C27 U+5316 U+6027), oxidizing (U+6C27 U+5316 U+6027), weakly oxidizing
  (U+5F31 U+6C27 U+5316 U+6027) and reducing (U+9084 U+539F U+6027).
\<close>

definition acidic :: str where
  "acidic = [37240, 24615]"

definition alkaline :: str where
  "alkaline = [40572, 24615]"

definition neutral :: str where
  "neutral = [20013, 24615]"

definition strongly_oxidizing :: str where
  "strongly_oxidizing = [24375, 27687, 21270, 24615]"

definition oxidizing :: str where
  "oxidizing = [27687, 21270, 24615]"

definition weakly_oxidizing :: str where
  "weakly_oxidizing = [24369, 27687, 21270, 24615]"

definition reducing :: str where
  "reducing = [36996, 21407, 24615]"

text \<open>\<^verbatim>\<open>_get_ph_status\<close>, \<^verbatim>\<open>_get_orp_status\<close> and \<^verbatim>\<open>_is_water_quality_good\<close>.\<close>

definition get_ph_status :: "real \<Rightarrow> str" where
  "get_ph_status ph =
     (if ph < 6.5 then acidic
      else if ph > 7.5 then alkaline
      else neutral)"

definition get_orp_status :: "int \<Rightarrow> str" where
  "get_orp_status orp =
     (if orp > 650 then strongly_oxidizing
      else if orp > 300 then oxidizing
      else if orp > 0 then weakly_oxidizing
      else reducing)"

definition is_water_quality_good :: "real option \<Rightarrow> int option \<Rightarrow> bool option" where
  "is_water_quality_good ph orp =
     (case ph of
        None \<Rightarrow> None
      | Some p \<Rightarrow>
          (case orp of
             None \<Rightarrow> None
           | Some r \<Rightarrow> Some (p \<ge> 6.5 \<and> p \<le> 8.5 \<and> r \<ge> 200 \<and> r \<le> 800)))"

text \<open>
  The three values \<^verbatim>\<open>save_sensor_data\<close> computes before it writes:
  \<^verbatim>\<open>ph_status = self._get_ph_status(ph_value) if ph_value is not None else None\<close>,
  the same for the redox status, and the quality flag.
\<close>

definition ph_status_of :: "real option \<Rightarrow> str option" where
  "ph_status_of ph = (case ph of None \<Rightarrow> None | Some p \<Rightarrow> Some (get_ph_status p))"

definition orp_status_of :: "int option \<Rightarrow> str option" where
  "orp_status_of orp = (case orp of None \<Rightarrow> None | Some r \<Rightarrow> Some (get_orp_status r))"


section \<open>SensorDatabase: the connection and the table\<close>

text \<open>
  The PostgreSQL server and the psycopg2 library are the environment of the program.
  Every call that reaches the server (\<^verbatim>\<open>psycopg2.connect\<close>, \<^verbatim>\<open>cursor.execute\<close>,
  \<^verbatim>\<open>connection.commit\<close>, \<^verbatim>\<open>connection.rollback\<close>, \<^verbatim>\<open>connection.close\<close>) either
  completes or raises \<^verbatim>\<open>psycopg2.Error\<close>; which of the two is not decided by the
  program. The \<open>script\<close> of a database state lists the outcomes of the calls still to
  come, in the order the program makes them; when the script is used up every further
  call completes. \<open>connects\<close> counts the calls of \<^verbatim>\<open>psycopg2.connect\<close>.

  A row of \<^verbatim>\<open>sensor_readings\<close> has the seven columns the \<^verbatim>\<open>INSERT\<close> names (the
  server fills \<^verbatim>\<open>id\<close> and \<^verbatim>\<open>created_at\<close>). \<open>pending\<close> holds the rows inserted in the
  open transaction, \<open>sensor_readings\<close> the committed ones.
\<close>

datatype outcome = Ok | Raise

datatype exn = Psycopg2_Error

datatype conn_state = Open | Closed

record sensor_reading =
  timestamp :: int
  ph_value :: "real option"
  orp_value :: "int option"
  ntu_value :: "int option"
  ph_status :: "str option"
  orp_status :: "str option"
  water_quality_good :: "bool option"

record sensor_database =
  connection :: "conn_state option"
  script :: "outcome list"
  connects :: nat
  pending :: "sensor_reading list"
  sensor_readings :: "sensor_reading list"

definition next_outcome :: "sensor_database \<Rightarrow> outcome \<times> sensor_database" where
  "next_outcome db = (case script db of [] \<Rightarrow> (Ok, db) | x # xs \<Rightarrow> (x, db\<lparr>script := xs\<rparr>))"

text \<open>
  \<^verbatim>\<open>connect\<close>: \<^verbatim>\<open>psycopg2.connect\<close>, then a cursor and the query
  \<^verbatim>\<open>SELECT version();\<close>; an exception of either call is caught and gives \<^verbatim>\<open>False\<close>.
\<close>

definition connect :: "sensor_database \<Rightarrow> bool \<times> sensor_database" where
  "connect db =
     (case next_outcome (db\<lparr>connects := Suc (connects db)\<rparr>) of
        (Raise, db1) \<Rightarrow> (False, db1)
      | (Ok, db1) \<Rightarrow>
          (case next_outcome (db1\<lparr>connection := Some Open, pending := []\<rparr>) of
             (Raise, db2) \<Rightarrow> (False, db2)
           | (Ok, db2) \<Rightarrow> (True, db2)))"

text \<open>
  \<^verbatim>\<open>check_connection\<close>: the query \<^verbatim>\<open>SELECT 1;\<close> when there is a connection that is
  not closed, \<^verbatim>\<open>False\<close> without a query otherwise; \<^verbatim>\<open>except Error: return False\<close>.
\<close>

definition check_connection :: "sensor_database \<Rightarrow> bool \<times> sensor_database" where
  "check_connection db =
     (if connection db = Some Open then
        (case next_outcome db of
           (Ok, db1) \<Rightarrow> (True, db1)
         | (Raise, db1) \<Rightarrow> (False, db1))
      else (False, db))"

text \<open>
  \<^verbatim>\<open>reconnect\<close>: closes the connection, if there is one, inside
  \<^verbatim>\<open>try: ... except: pass\<close>, then returns what \<^verbatim>\<open>connect\<close> returns.
\<close>

definition close_connection :: "sensor_database \<Rightarrow> sensor_database" where
  "close_connection db =
     (case next_outcome db of
        (Ok, db1) \<Rightarrow> db1\<lparr>connection := Some Closed, pending := []\<rparr>
      | (Raise, db1) \<Rightarrow> db1)"

definition reconnect :: "sensor_database \<Rightarrow> bool \<times> sensor_database" where
  "reconnect db =
     (if connection db \<noteq> None then connect (close_connection db) else connect db)"

text \<open>
  \<^verbatim>\<open>save_sensor_data\<close>. \<open>reading_row\<close> is the tuple \<^verbatim>\<open>values\<close>, with
  \<^verbatim>\<open>datetime.now()\<close> as \<open>now\<close>. \<open>write_reading\<close> is the body of the \<^verbatim>\<open>try\<close> from the
  \<^verbatim>\<open>INSERT\<close> on: the \<^verbatim>\<open>INSERT\<close>, the commit and the query that reads the last row
  back. \<open>on_error\<close> is the handler \<^verbatim>\<open>except Error\<close>: a rollback when there is a
  connection, then \<^verbatim>\<open>return False\<close>; the rollback is a call in the handler, so an
  exception it raises leaves \<^verbatim>\<open>save_sensor_data\<close>. The result is \<open>Inr\<close> of the value
  returned or \<open>Inl\<close> of the exception that leaves the call.
\<close>

definition reading_row :: "int \<Rightarrow> real option \<Rightarrow> int option \<Rightarrow> int option \<Rightarrow> sensor_reading" where
  "reading_row now ph orp ntu =
     \<lparr>timestamp = now, ph_value = ph, orp_value = orp, ntu_value = ntu,
      ph_status = ph_status_of ph, orp_status = orp_status_of orp,
      water_quality_good = is_water_quality_good ph orp\<rparr>"

definition on_error :: "sensor_database \<Rightarrow> (exn + bool) \<times> sensor_database" where
  "on_error db =
     (if connection db \<noteq> None then
        (case next_outcome db of
           (Ok, db1) \<Rightarrow> (Inr False, db1\<lparr>pending := []\<rparr>)
         | (Raise, db1) \<Rightarrow> (Inl Psycopg2_Error, db1))
      else (Inr False, db))"

definition write_reading :: "sensor_reading \<Rightarrow> sensor_database \<Rightarrow> (exn + bool) \<times> sensor_database" where
  "write_reading row db =
     (case next_outcome db of
        (Raise, db1) \<Rightarrow> on_error db1
      | (Ok, db1) \<Rightarrow>
          (case next_outcome (db1\<lparr>pending := pending db1 @ [row]\<rparr>) of
             (Raise, db2) \<Rightarrow> on_error db2
           | (Ok, db2) \<Rightarrow>
               (case next_outcome
                       (db2\<lparr>sensor_readings := sensor_readings db2 @ pending db2, pending := []\<rparr>) of
                  (Raise, db3) \<Rightarrow> on_error db3
                | (Ok, db3) \<Rightarrow> (Inr True, db3))))"

definition save_sensor_data ::
  "int \<Rightarrow> real option \<Rightarrow> int option \<Rightarrow> int option \<Rightarrow> sensor_database
     \<Rightarrow> (exn + bool) \<times> sensor_database" where
  "save_sensor_data now ph orp ntu db =
     (case check_connection db of
        (True, db1) \<Rightarrow> write_reading (reading_row now ph orp ntu) db1
      | (False, db1) \<Rightarrow>
          (case reconnect db1 of
             (False, db2) \<Rightarrow> (Inr False, db2)
           | (True, db2) \<Rightarrow> write_reading (reading_row now ph orp ntu) db2))"

section \<open>SensorDataParser\<close>

text \<open>
  The filter of \<^verbatim>\<open>parse_sensor_data\<close> (and of the last fallback of
  \<^verbatim>\<open>safe_decode\<close>): a character is kept when \<^verbatim>\<open>ord(c) >= 32\<close> or it is a tab, a
  newline or a carriage return.
\<close>

definition printable :: "nat \<Rightarrow> bool" where
  "printable c = (c \<ge> 32 \<or> c = 9 \<or> c = 10 \<or> c = 13)"

definition cleaned :: "str \<Rightarrow> str" where
  "cleaned s = filter printable s"

subsection \<open>The regular expressions of the parser\<close>

text \<open>
  The three patterns are compiled with \<^verbatim>\<open>re.IGNORECASE\<close> and used with
  \<^verbatim>\<open>search\<close>. They are built from single characters, the classes \<^verbatim>\<open>\s\<close> and
  \<^verbatim>\<open>\d\<close>, the set \<^verbatim>\<open>[_\s]\<close>, the greedy quantifiers \<^verbatim>\<open>*\<close>, \<^verbatim>\<open>+\<close> and \<^verbatim>\<open>?\<close>
  on one of these, concatenation and alternation; each pattern ends with its one
  capturing group.

  \<open>is_space\<close> is the class \<^verbatim>\<open>\s\<close> of a \<^verbatim>\<open>str\<close> pattern (the characters for
  which \<^verbatim>\<open>str.isspace\<close> holds). The class \<^verbatim>\<open>\d\<close> is the Unicode category Nd,
  a table of the Python runtime that also gives the digit \<^verbatim>\<open>int\<close> and \<^verbatim>\<open>float\<close> read
  from such a character: the table is the parameter \<open>nd\<close>, from a code point to its
  digit value. \<open>ascii_nd\<close> is its ASCII part (the code points 48 to 57).
  \<open>ignorecase_eq p c\<close> is how an ASCII character \<open>p\<close> of a pattern matches the
  character \<open>c\<close> of the text under \<^verbatim>\<open>re.IGNORECASE\<close>: the two cases of a letter,
  and the four characters beyond ASCII that lower-case to an ASCII letter or are
  equivalent to one (U+0130 and U+0131 for i, U+212A for k, U+017F for s).
\<close>

definition is_space :: "nat \<Rightarrow> bool" where
  "is_space c =
     ((9 \<le> c \<and> c \<le> 13) \<or> (28 \<le> c \<and> c \<le> 32) \<or> c = 133 \<or> c = 160 \<or> c = 5760
      \<or> (8192 \<le> c \<and> c \<le> 8202) \<or> c = 8232 \<or> c = 8233 \<or> c = 8239 \<or> c = 8287
      \<or> c = 12288)"

definition ascii_nd :: "nat \<Rightarrow> nat option" where
  "ascii_nd c = (if 48 \<le> c \<and> c \<le> 57 then Some (c - 48) else None)"

definition ascii_lower :: "nat \<Rightarrow> nat" where
  "ascii_lower c = (if 65 \<le> c \<and> c \<le> 90 then c + 32 else c)"

definition ignorecase_eq :: "nat \<Rightarrow> nat \<Rightarrow> bool" where
  "ignorecase_eq p c =
     (ascii_lower c = ascii_lower p
      \<or> (ascii_lower p = 105 \<and> (c = 304 \<or> c = 305))
      \<or> (ascii_lower p = 107 \<and> c = 8490)
      \<or> (ascii_lower p = 115 \<and> c = 383))"

datatype atom = Chr nat | Whitespace | Decimal | Either atom atom

fun atom_match :: "(nat \<Rightarrow> nat option) \<Rightarrow> atom \<Rightarrow> nat \<Rightarrow> bool" where
  "atom_match nd (Chr p) c = ignorecase_eq p c"
| "atom_match nd Whitespace c = is_space c"
| "atom_match nd Decimal c = (nd c \<noteq> None)"
| "atom_match nd (Either a b) c = (atom_match nd a c \<or> atom_match nd b c)"

datatype regex =
  Eps | Atom atom | Many atom | Many1 atom | Maybe atom | Seq regex regex | Or regex regex

fun lit :: "str \<Rightarrow> regex" where
  "lit [] = Eps"
| "lit (c # cs) = Seq (Atom (Chr c)) (lit cs)"

text \<open>
  A pattern is the expression before the capturing group and the expression in the
  group: \<^verbatim>\<open>pH[_\s]*value:?\s*(-?\d+\.?\d*)\<close>, \<^verbatim>\<open>ORP:?\s*(-?\d+)\<close> and
  \<^verbatim>\<open>(?:Turbidity|NTU):?\s*(-?\d+)\<close>.
\<close>

record pattern =
  before_group :: regex
  group1 :: regex

definition ph_pattern :: pattern where
  "ph_pattern =
     \<lparr>before_group =
        Seq (lit (ustr ''pH'')) (Seq (Many (Either (Chr 95) Whitespace))
          (Seq (lit (ustr ''value'')) (Seq (Maybe (Chr 58)) (Many Whitespace)))),
      group1 = Seq (Maybe (Chr 45)) (Seq (Many1 Decimal) (Seq (Maybe (Chr 46)) (Many Decimal)))\<rparr>"

definition orp_pattern :: pattern where
  "orp_pattern =
     \<lparr>before_group = Seq (lit (ustr ''ORP'')) (Seq (Maybe (Chr 58)) (Many Whitespace)),
      group1 = Seq (Maybe (Chr 45)) (Many1 Decimal)\<rparr>"

definition ntu_pattern :: pattern where
  "ntu_pattern =
     \<lparr>before_group =
        Seq (Or (lit (ustr ''Turbidity'')) (lit (ustr ''NTU'')))
          (Seq (Maybe (Chr 58)) (Many Whitespace)),
      group1 = Seq (Maybe (Chr 45)) (Many1 Decimal)\<rparr>"

text \<open>
  The matcher of \<^verbatim>\<open>re\<close> backtracks: a greedy quantifier takes as many characters
  as it can and gives them back one by one when the rest of the pattern fails, and of
  two alternatives the left one is tried first. \<open>rmatch nd r s\<close> lists what is left of
  \<open>s\<close> after each way of matching \<open>r\<close> at its start, in the order in which the
  matcher tries them; the match found is the first. \<open>match_at\<close> is the text of the
  group in the match that starts at the beginning of \<open>s\<close>; \<open>re_search\<close> tries the
  start positions from left to right, as \<^verbatim>\<open>search\<close> does, and gives \<^verbatim>\<open>group(1)\<close> of
  the match.
\<close>

fun many :: "(nat \<Rightarrow> bool) \<Rightarrow> str \<Rightarrow> str list" where
  "many p [] = [[]]"
| "many p (c # cs) = (if p c then many p cs @ [c # cs] else [c # cs])"

fun rmatch :: "(nat \<Rightarrow> nat option) \<Rightarrow> regex \<Rightarrow> str \<Rightarrow> str list" where
  "rmatch nd Eps s = [s]"
| "rmatch nd (Atom a) s =
     (case s of [] \<Rightarrow> [] | c # cs \<Rightarrow> if atom_match nd a c then [cs] else [])"
| "rmatch nd (Many a) s = many (atom_match nd a) s"
| "rmatch nd (Many1 a) s =
     (case s of [] \<Rightarrow> [] | c # cs \<Rightarrow> if atom_match nd a c then many (atom_match nd a) cs else [])"
| "rmatch nd (Maybe a) s =
     (case s of [] \<Rightarrow> [[]] | c # cs \<Rightarrow> if atom_match nd a c then [cs, c # cs] else [c # cs])"
| "rmatch nd (Seq r1 r2) s = concat (map (rmatch nd r2) (rmatch nd r1 s))"
| "rmatch nd (Or r1 r2) s = rmatch nd r1 s @ rmatch nd r2 s"

definition match_at :: "(nat \<Rightarrow> nat option) \<Rightarrow> pattern \<Rightarrow> str \<Rightarrow> str option" where
  "match_at nd p s =
     (case concat (map (\<lambda>s1. map (\<lambda>s2. take (length s1 - length s2) s1)
                                  (rmatch nd (group1 p) s1))
                       (rmatch nd (before_group p) s)) of
        [] \<Rightarrow> None
      | g # _ \<Rightarrow> Some g)"

fun re_search :: "(nat \<Rightarrow> nat option) \<Rightarrow> pattern \<Rightarrow> str \<Rightarrow> str option" where
  "re_search nd p [] = match_at nd p []"
| "re_search nd p (c # cs) =
     (case match_at nd p (c # cs) of Some g \<Rightarrow> Some g | None \<Rightarrow> re_search nd p cs)"

subsection \<open>Reading numbers\<close>

text \<open>
  \<^verbatim>\<open>int(text)\<close> and \<^verbatim>\<open>float(text)\<close> for a text in plain decimal notation, the
  only kind the groups capture: a sign, digits and, for \<^verbatim>\<open>float\<close>, one decimal point
  with a digit on at least one side of it. \<open>None\<close> is the \<^verbatim>\<open>ValueError\<close> that the
  parser catches with \<^verbatim>\<open>except: pass\<close>. The value of \<open>py_float\<close> is the number the
  text denotes; the rounding of \<^verbatim>\<open>float\<close> to the nearest binary64 number is left out.
\<close>

fun decimal :: "(nat \<Rightarrow> nat option) \<Rightarrow> nat \<Rightarrow> str \<Rightarrow> nat option" where
  "decimal nd acc [] = Some acc"
| "decimal nd acc (c # cs) =
     (case nd c of None \<Rightarrow> None | Some d \<Rightarrow> decimal nd (10 * acc + d) cs)"

definition unsigned :: "str \<Rightarrow> bool \<times> str" where
  "unsigned s =
     (case s of
        [] \<Rightarrow> (False, [])
      | c # cs \<Rightarrow> if c = 45 then (True, cs) else if c = 43 then (False, cs) else (False, s))"

definition py_int :: "(nat \<Rightarrow> nat option) \<Rightarrow> str \<Rightarrow> int option" where
  "py_int nd s =
     (case unsigned s of
        (neg, body) \<Rightarrow>
          if body = [] then None
          else map_option (\<lambda>n. if neg then - int n else int n) (decimal nd 0 body))"

definition py_float :: "(nat \<Rightarrow> nat option) \<Rightarrow> str \<Rightarrow> real option" where
  "py_float nd s =
     (case unsigned s of
        (neg, body) \<Rightarrow>
          let ip = takeWhile (\<lambda>c. c \<noteq> 46) body;
              fp = drop 1 (dropWhile (\<lambda>c. c \<noteq> 46) body)
          in if ip = [] \<and> fp = [] then None
             else (case decimal nd 0 ip of
                     None \<Rightarrow> None
                   | Some i \<Rightarrow>
                       (case decimal nd 0 fp of
                          None \<Rightarrow> None
                        | Some f \<Rightarrow>
                            let x = real i + real f / 10 ^ length fp
                            in Some (if neg then - x else x))))"

subsection \<open>parse_sensor_data\<close>

definition parse_sensor_data ::
  "(nat \<Rightarrow> nat option) \<Rightarrow> str option \<Rightarrow> real option \<times> int option \<times> int option" where
  "parse_sensor_data nd data_string =
     (case data_string of
        None \<Rightarrow> (None, None, None)
      | Some s \<Rightarrow>
          if s = [] then (None, None, None)
          else
            let cleaned_data = cleaned s
            in (Option.bind (re_search nd ph_pattern cleaned_data) (py_float nd),
                Option.bind (re_search nd orp_pattern cleaned_data) (py_int nd),
                Option.bind (re_search nd ntu_pattern cleaned_data) (py_int nd)))"

subsection \<open>What it means that a pattern matches\<close>

text \<open>
  The usual reading of a regular expression, as the set of the texts it matches, and of
  \<^verbatim>\<open>search\<close>: the pattern matches when some part of the text is a text of the
  expression before the group followed by a text of the group. This is the reading of
  the specification; the parser above is the code.
\<close>

fun lang :: "(nat \<Rightarrow> nat option) \<Rightarrow> regex \<Rightarrow> str set" where
  "lang nd Eps = {[]}"
| "lang nd (Atom a) = {[c] | c. atom_match nd a c}"
| "lang nd (Many a) = {w. \<forall>c\<in>set w. atom_match nd a c}"
| "lang nd (Many1 a) = {w. w \<noteq> [] \<and> (\<forall>c\<in>set w. atom_match nd a c)}"
| "lang nd (Maybe a) = insert [] {[c] | c. atom_match nd a c}"
| "lang nd (Seq r1 r2) = {u @ v | u v. u \<in> lang nd r1 \<and> v \<in> lang nd r2}"
| "lang nd (Or r1 r2) = lang nd r1 \<union> lang nd r2"

definition occurs :: "(nat \<Rightarrow> nat option) \<Rightarrow> pattern \<Rightarrow> str \<Rightarrow> bool" where
  "occurs nd p t =
     (\<exists>u l g v. t = u @ l @ g @ v \<and> l \<in> lang nd (before_group p) \<and> g \<in> lang nd (group1 p))"

section \<open>SerialDataReader: safe_decode\<close>

text \<open>
  The raw data of the serial line is a sequence of bytes. \<^verbatim>\<open>bytes.decode\<close> belongs
  to the Python runtime. Three of the five codecs of \<^verbatim>\<open>encoding_list\<close> are written
  out here. \<open>utf8_decode\<close> follows the decoder of CPython: a byte sequence that is not
  well-formed UTF-8 is an error that covers its longest prefix that could still begin a
  character (at least one byte), and decoding goes on after it; \<open>rep\<close> is what an
  error leaves in the text, nothing for \<^verbatim>\<open>errors='ignore'\<close> and U+FFFD for
  \<^verbatim>\<open>errors='replace'\<close>. ASCII drops the bytes from 128 on, Latin-1 maps every byte to
  the code point of the same number. The tables of Big5 and GB2312 are not part of the
  program: their decoders are the parameter \<open>cjk\<close>.
\<close>

type_synonym byte = "8 word"

datatype encoding = UTF_8 | Big5 | GB2312 | ASCII | Latin1

datatype errors = Ignore | Replace

datatype decode_exn = UnicodeDecodeError | AttributeError | Other_Exception

type_synonym codec = "encoding \<Rightarrow> errors \<Rightarrow> byte list \<Rightarrow> decode_exn + str"

definition continuation :: "nat \<Rightarrow> bool" where
  "continuation b = (128 \<le> b \<and> b \<le> 191)"

definition second_ok :: "nat \<Rightarrow> nat \<Rightarrow> bool" where
  "second_ok b0 b1 =
     (if b0 = 224 then 160 \<le> b1 \<and> b1 \<le> 191
      else if b0 = 237 then 128 \<le> b1 \<and> b1 \<le> 159
      else if b0 = 240 then 144 \<le> b1 \<and> b1 \<le> 191
      else if b0 = 244 then 128 \<le> b1 \<and> b1 \<le> 143
      else continuation b1)"

fun utf8_decode :: "str \<Rightarrow> nat list \<Rightarrow> str" where
  "utf8_decode rep [] = []"
| "utf8_decode rep (b0 # bs) =
     (if b0 < 128 then b0 # utf8_decode rep bs
      else if b0 < 194 then rep @ utf8_decode rep bs
      else if b0 < 224 then
        (case bs of
           [] \<Rightarrow> rep
         | b1 # bs1 \<Rightarrow>
             if continuation b1 then ((b0 - 192) * 64 + (b1 - 128)) # utf8_decode rep bs1
             else rep @ utf8_decode rep bs)
      else if b0 < 240 then
        (case bs of
           [] \<Rightarrow> rep
         | b1 # bs1 \<Rightarrow>
             if \<not> second_ok b0 b1 then rep @ utf8_decode rep bs
             else
               (case bs1 of
                  [] \<Rightarrow> rep
                | b2 # bs2 \<Rightarrow>
                    if continuation b2
                    then ((b0 - 224) * 4096 + (b1 - 128) * 64 + (b2 - 128)) # utf8_decode rep bs2
                    else rep @ utf8_decode rep bs1))
      else if b0 < 245 then
        (case bs of
           [] \<Rightarrow> rep
         | b1 # bs1 \<Rightarrow>
             if \<not> second_ok b0 b1 then rep @ utf8_decode rep bs
             else
               (case bs1 of
                  [] \<Rightarrow> rep
                | b2 # bs2 \<Rightarrow>
                    if \<not> continuation b2 then rep @ utf8_decode rep bs1
                    else
                      (case bs2 of
                         [] \<Rightarrow> rep
                       | b3 # bs3 \<Rightarrow>
                           if continuation b3
                           then ((b0 - 240) * 262144 + (b1 - 128) * 4096 + (b2 - 128) * 64
                                 + (b3 - 128)) # utf8_decode rep bs3
                           else rep @ utf8_decode rep bs2)))
      else rep @ utf8_decode rep bs)"

definition replacement :: "errors \<Rightarrow> str" where
  "replacement e = (case e of Ignore \<Rightarrow> [] | Replace \<Rightarrow> [65533])"

definition decode :: "codec \<Rightarrow> encoding \<Rightarrow> errors \<Rightarrow> byte list \<Rightarrow> decode_exn + str" where
  "decode cjk enc e raw =
     (case enc of
        UTF_8 \<Rightarrow> Inr (utf8_decode (replacement e) (map unat raw))
      | ASCII \<Rightarrow> Inr (concat (map (\<lambda>b. if b < 128 then [b] else replacement e) (map unat raw)))
      | Latin1 \<Rightarrow> Inr (map unat raw)
      | Big5 \<Rightarrow> cjk Big5 e raw
      | GB2312 \<Rightarrow> cjk GB2312 e raw)"

text \<open>\<^verbatim>\<open>str.strip()\<close>: the text without its leading and trailing whitespace.\<close>

definition strip :: "str \<Rightarrow> str" where
  "strip s = rev (dropWhile is_space (rev (dropWhile is_space s)))"

text \<open>
  \<^verbatim>\<open>safe_decode\<close>. Its result is paired with the list of the calls of \<^verbatim>\<open>decode\<close> it
  has made. \<open>try_encodings\<close> is the loop over \<^verbatim>\<open>encoding_list\<close>: it returns the first
  decoded text that is not empty after \<^verbatim>\<open>strip\<close>; \<^verbatim>\<open>UnicodeDecodeError\<close> and
  \<^verbatim>\<open>AttributeError\<close> are caught and the next encoding is tried, any other exception
  leaves the function. The two steps after the loop are inside \<^verbatim>\<open>try: ... except:\<close>,
  which catches every exception. Only the last step filters the text.
\<close>

definition encoding_list :: "encoding list" where
  "encoding_list = [UTF_8, Big5, GB2312, ASCII, Latin1]"

fun try_encodings ::
  "codec \<Rightarrow> encoding list \<Rightarrow> byte list \<Rightarrow> (encoding \<times> errors) list
     \<Rightarrow> (encoding \<times> errors) list \<times> (decode_exn + str option)" where
  "try_encodings cjk [] raw calls = (calls, Inr None)"
| "try_encodings cjk (enc # encs) raw calls =
     (case decode cjk enc Ignore raw of
        Inr text \<Rightarrow>
          if strip text \<noteq> [] then (calls @ [(enc, Ignore)], Inr (Some (strip text)))
          else try_encodings cjk encs raw (calls @ [(enc, Ignore)])
      | Inl UnicodeDecodeError \<Rightarrow> try_encodings cjk encs raw (calls @ [(enc, Ignore)])
      | Inl AttributeError \<Rightarrow> try_encodings cjk encs raw (calls @ [(enc, Ignore)])
      | Inl Other_Exception \<Rightarrow> (calls @ [(enc, Ignore)], Inl Other_Exception))"

definition safe_decode ::
  "codec \<Rightarrow> byte list option \<Rightarrow> (encoding \<times> errors) list \<times> (decode_exn + str)" where
  "safe_decode cjk raw_data =
     (case raw_data of
        None \<Rightarrow> ([], Inr [])
      | Some raw \<Rightarrow>
          if raw = [] then ([], Inr [])
          else
            (case try_encodings cjk encoding_list raw [] of
               (calls, Inl e) \<Rightarrow> (calls, Inl e)
             | (calls, Inr (Some decoded)) \<Rightarrow> (calls, Inr decoded)
             | (calls, Inr None) \<Rightarrow>
                 (case (case decode cjk UTF_8 Replace raw of
                          Inr text \<Rightarrow> if strip text \<noteq> [] then Some (strip text) else None
                        | Inl e \<Rightarrow> None) of
                    Some decoded \<Rightarrow> (calls @ [(UTF_8, Replace)], Inr decoded)
                  | None \<Rightarrow>
                      (case decode cjk Latin1 Ignore raw of
                         Inr text \<Rightarrow>
                           (calls @ [(UTF_8, Replace), (Latin1, Ignore)],
                            Inr (filter printable (strip text)))
                       | Inl e \<Rightarrow> (calls @ [(UTF_8, Replace), (Latin1, Ignore)], Inr [])))))"

text \<open>
  A stand-in for the two table-driven codecs in the examples: it decodes the ASCII bytes
  and drops the others.
\<close>

definition ascii_part :: codec where
  "ascii_part enc e raw = Inr (filter (\<lambda>b. b < 128) (map unat raw))"

section \<open>read_arduino_data: the ingestion loop\<close>

text \<open>
  The state of the loop: the database, the three lists of recent readings, the counter
  \<^verbatim>\<open>consecutive_errors\<close>, and how the loop has ended, if it has: by the \<^verbatim>\<open>break\<close>
  after too many consecutive errors, or by an exception, which
  \<^verbatim>\<open>except Exception\<close> around the loop catches. What the loop prints is left out, and
  with it \<^verbatim>\<open>validate_sensor_values\<close>, whose warnings are only printed.
\<close>

datatype stop = Aborted | Crashed exn

record ingestion =
  database :: sensor_database
  ph_readings :: "real list"
  orp_readings :: "int list"
  ntu_readings :: "int list"
  consecutive_errors :: nat
  stopped :: "stop option"

definition max_consecutive_errors :: nat where
  "max_consecutive_errors = 10"

text \<open>
  The test for a system message:
  \<^verbatim>\<open>"..." in raw_data or "sensor" in raw_data.lower()\<close>, where the first literal is
  the Chinese word for initialisation (U+521D U+59CB U+5316). \<open>contains s sub\<close> is
  \<^verbatim>\<open>sub in s\<close>. \<^verbatim>\<open>str.lower\<close> is taken on the ASCII letters: no character beyond
  ASCII lower-cases to a letter of \<^verbatim>\<open>sensor\<close>.
\<close>

fun starts_with :: "str \<Rightarrow> str \<Rightarrow> bool" where
  "starts_with s [] = True"
| "starts_with [] (p # ps) = False"
| "starts_with (c # cs) (p # ps) = (c = p \<and> starts_with cs ps)"

fun contains :: "str \<Rightarrow> str \<Rightarrow> bool" where
  "contains [] sub = (sub = [])"
| "contains (c # cs) sub = (starts_with (c # cs) sub \<or> contains cs sub)"

definition py_lower :: "str \<Rightarrow> str" where
  "py_lower s = map ascii_lower s"

definition is_system_message :: "str \<Rightarrow> bool" where
  "is_system_message raw_data =
     (contains raw_data [21021, 22987, 21270] \<or> contains (py_lower raw_data) (ustr ''sensor''))"

text \<open>
  \<open>keep_50\<close> is \<^verbatim>\<open>if len(readings) > 50: readings.pop(0)\<close>; \<open>appended\<close> is
  \<^verbatim>\<open>if value is not None: readings.append(value)\<close>.
\<close>

definition appended :: "'a list \<Rightarrow> 'a option \<Rightarrow> 'a list" where
  "appended readings v = (case v of None \<Rightarrow> readings | Some x \<Rightarrow> readings @ [x])"

definition keep_50 :: "'a list \<Rightarrow> 'a list" where
  "keep_50 readings = (if length readings > 50 then tl readings else readings)"

text \<open>
  One turn of \<^verbatim>\<open>while True\<close>. Its input is what \<^verbatim>\<open>serial_reader.read_line()\<close>
  returns in this turn, and the time \<^verbatim>\<open>datetime.now()\<close> gives when the reading is
  saved. A turn with no line or an empty line changes nothing.
\<close>

definition loop_body :: "(nat \<Rightarrow> nat option) \<Rightarrow> str option \<times> int \<Rightarrow> ingestion \<Rightarrow> ingestion" where
  "loop_body nd inp st =
     (case fst inp of
        None \<Rightarrow> st
      | Some raw_data \<Rightarrow>
          if raw_data = [] then st
          else
            (case parse_sensor_data nd (Some raw_data) of
               (ph, orp, ntu) \<Rightarrow>
                 if ph \<noteq> None \<or> orp \<noteq> None \<or> ntu \<noteq> None then
                   (let st1 = st\<lparr>consecutive_errors := 0,
                                  ph_readings := keep_50 (appended (ph_readings st) ph),
                                  orp_readings := keep_50 (appended (orp_readings st) orp),
                                  ntu_readings := keep_50 (appended (ntu_readings st) ntu)\<rparr>
                    in (case save_sensor_data (snd inp) ph orp ntu (database st1) of
                          (Inr saved, db') \<Rightarrow> st1\<lparr>database := db'\<rparr>
                        | (Inl e, db') \<Rightarrow> st1\<lparr>database := db', stopped := Some (Crashed e)\<rparr>))
                 else
                   (let st1 = st\<lparr>consecutive_errors := consecutive_errors st + 1\<rparr>
                    in if consecutive_errors st1 \<ge> max_consecutive_errors
                       then st1\<lparr>stopped := Some Aborted\<rparr>
                       else if is_system_message raw_data
                         then st1\<lparr>consecutive_errors := 0\<rparr>
                         else st1)))"

text \<open>
  The loop over the turns the serial line gives it; it takes no further turn once it
  has stopped. \<open>started\<close> is the state in which the loop is entered.
\<close>

fun ingest :: "(nat \<Rightarrow> nat option) \<Rightarrow> (str option \<times> int) list \<Rightarrow> ingestion \<Rightarrow> ingestion" where
  "ingest nd [] st = st"
| "ingest nd (inp # inps) st =
     (if stopped st \<noteq> None then st else ingest nd inps (loop_body nd inp st))"

definition started :: "sensor_database \<Rightarrow> ingestion" where
  "started d =
     \<lparr>database = d, ph_readings = [], orp_readings = [], ntu_readings = [],
      consecutive_errors = 0, stopped = None\<rparr>"

definition db_healthy :: sensor_database where
  "db_healthy = \<lparr>connection = Some Open, script = [], connects = 1, pending = [],
     sensor_readings = []\<rparr>"

text \<open>
  A row holds a measurement when one of its three values is present.
\<close>

definition measured :: "sensor_reading \<Rightarrow> bool" where
  "measured r = (ph_value r \<noteq> None \<or> orp_value r \<noteq> None \<or> ntu_value r \<noteq> None)"

section \<open>The distribution layer: the cache of the latest reading\<close>

text \<open>
  The endpoints build their results as dictionaries with string keys: an association
  list, in the order of insertion. The values are JSON values.
\<close>

datatype json = JNone | JStr str | JInt int | JList "json list" | JDict "(str \<times> json) list"

type_synonym dict = "(str \<times> json) list"

definition has_key :: "dict \<Rightarrow> str \<Rightarrow> bool" where
  "has_key d k = (map_of d k \<noteq> None)"

definition set_item :: "dict \<Rightarrow> str \<Rightarrow> json \<Rightarrow> dict" where
  "set_item d k v = (if has_key d k then map (\<lambda>(k', v'). if k' = k then (k', v) else (k', v')) d
                     else d @ [(k, v)])"

text \<open>
  The environment of the endpoints. A \<^verbatim>\<open>datetime\<close> is a number of microseconds.
  \<^verbatim>\<open>datetime.isoformat\<close>, \<^verbatim>\<open>str\<close> of a \<^verbatim>\<open>Decimal\<close> and \<^verbatim>\<open>str\<close> of a dictionary
  are functions of the Python runtime and parameters here. The store answers the
  \<open>n\<close>-th connection that is asked for: the connection is refused
  (\<^verbatim>\<open>get_db_connection\<close> returns \<^verbatim>\<open>None\<close>), the query raises an exception with a
  message, or the query returns its result, for \<^verbatim>\<open>fetchrow\<close> a row or \<^verbatim>\<open>None\<close>.
  Closing the connection in \<^verbatim>\<open>finally\<close> is taken to complete.
\<close>

record latest_row =
  row_timestamp :: "int option"
  row_ph_value :: "real option"
  row_orp_value :: "int option"
  row_ntu_value :: "int option"

datatype latest_reply = Refused | Failed str | Fetched "latest_row option"

datatype count_reply = Count_refused | Count_failed | Counted "int option"

record world =
  isoformat :: "int \<Rightarrow> str"
  decimal_str :: "real \<Rightarrow> str"
  dict_str :: "json \<Rightarrow> str"
  fetchrow :: "nat \<Rightarrow> latest_reply"
  fetchval :: "nat \<Rightarrow> count_reply"

fun nat_str :: "nat \<Rightarrow> str" where
  "nat_str n = (if n < 10 then [48 + n] else nat_str (n div 10) @ [48 + n mod 10])"

declare nat_str.simps [simp del]

definition int_str :: "int \<Rightarrow> str" where
  "int_str i = (if i < 0 then 45 # nat_str (nat (- i)) else nat_str (nat i))"

text \<open>
  The module's state: the objects the dictionaries are (a result that is cached and
  returned is one object, which \<^verbatim>\<open>get_data\<close> later changes in place), the globals
  \<^verbatim>\<open>cached_data\<close> (a reference or \<^verbatim>\<open>None\<close>) and \<^verbatim>\<open>last_cache_time\<close>, and the number
  of connections asked of the store so far.
\<close>

record api =
  objects :: "dict list"
  cached_data :: "nat option"
  last_cache_time :: "int option"
  connections :: nat

definition cache_duration :: real where
  "cache_duration = 5"

definition total_seconds :: "int \<Rightarrow> real" where
  "total_seconds d = real_of_int d / 1000000"

definition deref :: "api \<Rightarrow> nat \<Rightarrow> dict" where
  "deref s a = (if a < length (objects s) then objects s ! a else [])"

definition alloc :: "dict \<Rightarrow> api \<Rightarrow> nat \<times> api" where
  "alloc d s = (length (objects s), s\<lparr>objects := objects s @ [d]\<rparr>)"

text \<open>
  The messages of the source, by their code points: that the connection to the database
  failed, that reading the data raised an error (followed by the text of the
  exception), that the database holds no data, and that the stream raised an error.
\<close>

definition msg_no_connection :: str where
  "msg_no_connection = [28961, 27861, 36899, 25509, 21040, 36039, 26009, 24235]"

definition msg_read_error :: str where
  "msg_read_error = [35712, 21462, 25976, 25818, 26178, 30332, 29983, 37679, 35492, 58, 32]"

definition msg_no_data :: str where
  "msg_no_data = [36039, 26009, 24235, 20013, 27794, 26377, 25976, 25818]"

definition msg_stream_error :: str where
  "msg_stream_error = [20018, 27969, 30332, 29983, 37679, 35492, 58, 32]"

text \<open>
  \<^verbatim>\<open>read_latest_data\<close>, with \<^verbatim>\<open>datetime.now()\<close> as \<open>current_time\<close>.
  \<open>cached_entry\<close> is the test \<^verbatim>\<open>cached_data and last_cache_time and
  (current_time - last_cache_time).total_seconds() < cache_duration\<close> together with
  the object it lets the function return; a dictionary is true when it is not empty.
\<close>

definition cached_entry :: "api \<Rightarrow> int \<Rightarrow> nat option" where
  "cached_entry s current_time =
     (case cached_data s of
        None \<Rightarrow> None
      | Some a \<Rightarrow>
          (case last_cache_time s of
             None \<Rightarrow> None
           | Some t \<Rightarrow>
               if deref s a \<noteq> [] \<and> total_seconds (current_time - t) < cache_duration
               then Some a else None))"

definition opt_str :: "('a \<Rightarrow> str) \<Rightarrow> 'a option \<Rightarrow> json" where
  "opt_str f v = (case v of None \<Rightarrow> JNone | Some x \<Rightarrow> JStr (f x))"

definition format_result :: "world \<Rightarrow> latest_row \<Rightarrow> int \<Rightarrow> dict" where
  "format_result w row current_time =
     [(ustr ''status'', JStr (ustr ''success'')),
      (ustr ''latest_data'',
         JDict [(ustr ''timestamp'', opt_str (isoformat w) (row_timestamp row)),
                (ustr ''ph_value'', opt_str (decimal_str w) (row_ph_value row)),
                (ustr ''orp_value'', opt_str int_str (row_orp_value row)),
                (ustr ''ntu_value'', opt_str int_str (row_ntu_value row))]),
      (ustr ''last_updated'', JStr (isoformat w current_time))]"

definition read_latest_data :: "world \<Rightarrow> int \<Rightarrow> api \<Rightarrow> nat \<times> api" where
  "read_latest_data w current_time s =
     (case cached_entry s current_time of
        Some a \<Rightarrow> (a, s)
      | None \<Rightarrow>
        (let s1 = s\<lparr>connections := connections s + 1\<rparr>
         in case fetchrow w (connections s) of
              Refused \<Rightarrow> alloc [(ustr ''error'', JStr msg_no_connection)] s1
            | Failed e \<Rightarrow> alloc [(ustr ''error'', JStr (msg_read_error @ e))] s1
            | Fetched None \<Rightarrow>
                alloc [(ustr ''message'', JStr msg_no_data), (ustr ''data'', JList [])] s1
            | Fetched (Some row) \<Rightarrow>
                (case alloc (format_result w row current_time) s1 of
                   (a, s2) \<Rightarrow>
                     (a, s2\<lparr>cached_data := Some a, last_cache_time := Some current_time\<rparr>))))"

text \<open>
  \<^verbatim>\<open>get_total_count\<close> and the endpoint \<^verbatim>\<open>GET /data\<close>. \<open>Inl\<close> is the
  \<^verbatim>\<open>HTTPException\<close> raised, with its status code and detail; \<open>Inr\<close> is the object
  returned, which the framework sends with status 200.
\<close>

definition get_total_count :: "world \<Rightarrow> api \<Rightarrow> int \<times> api" where
  "get_total_count w s =
     (let s1 = s\<lparr>connections := connections s + 1\<rparr>
      in case fetchval w (connections s) of
           Count_refused \<Rightarrow> (0, s1)
         | Count_failed \<Rightarrow> (0, s1)
         | Counted None \<Rightarrow> (0, s1)
         | Counted (Some n) \<Rightarrow> (n, s1))"

datatype http_exception = HTTPException nat json

definition get_data :: "world \<Rightarrow> int \<Rightarrow> api \<Rightarrow> (http_exception + nat) \<times> api" where
  "get_data w current_time s =
     (case read_latest_data w current_time s of
        (a, s1) \<Rightarrow>
          (case map_of (deref s1 a) (ustr ''error'') of
             Some detail \<Rightarrow> (Inl (HTTPException 500 detail), s1)
           | None \<Rightarrow>
               (case get_total_count w s1 of
                  (total_count, s2) \<Rightarrow>
                    (Inr a,
                     s2\<lparr>objects := (objects s2)
                          [a := set_item (deref s2 a) (ustr ''total_records'') (JInt total_count)]\<rparr>))))"

section \<open>The distribution layer: the stream of changes\<close>

text \<open>
  An event is the object that \<^verbatim>\<open>event_generator\<close> serialises with \<^verbatim>\<open>json.dumps\<close> and
  yields. \<open>truthy\<close> is the truth value of a JSON value in a condition.
\<close>

datatype event = Event dict

definition truthy :: "json \<Rightarrow> bool" where
  "truthy v =
     (case v of
        JNone \<Rightarrow> False
      | JStr x \<Rightarrow> x \<noteq> []
      | JInt i \<Rightarrow> i \<noteq> 0
      | JList xs \<Rightarrow> xs \<noteq> []
      | JDict d \<Rightarrow> d \<noteq> [])"

definition error_event :: "world \<Rightarrow> json \<Rightarrow> int \<Rightarrow> event" where
  "error_event w detail now =
     Event [(ustr ''error'', detail), (ustr ''timestamp'', JStr (isoformat w now))]"

definition replace_event :: "world \<Rightarrow> json \<Rightarrow> int \<Rightarrow> event" where
  "replace_event w latest_data now =
     Event [(ustr ''latest_data'', latest_data), (ustr ''timestamp'', JStr (isoformat w now)),
            (ustr ''status'', JStr (ustr ''success''))]"

text \<open>
  \<^verbatim>\<open>current_data_key\<close>: \<^verbatim>\<open>None\<close> when the data have no \<^verbatim>\<open>latest_data\<close>, the
  timestamp of \<^verbatim>\<open>latest_data\<close> when it has one that is true, \<^verbatim>\<open>str(latest_data)\<close>
  otherwise. \<^verbatim>\<open>read_latest_data\<close> gives a dictionary for \<^verbatim>\<open>latest_data\<close>; for any
  other value the test \<^verbatim>\<open>"timestamp" in latest_data\<close> is taken to raise (\<open>Inl\<close>, with
  the text of the exception).
\<close>

definition current_data_key :: "world \<Rightarrow> dict \<Rightarrow> str + json" where
  "current_data_key w data =
     (case map_of data (ustr ''latest_data'') of
        None \<Rightarrow> Inr JNone
      | Some (JDict latest_data) \<Rightarrow>
          (case map_of latest_data (ustr ''timestamp'') of
             None \<Rightarrow> Inr (JStr (dict_str w (JDict latest_data)))
           | Some ts \<Rightarrow>
               if truthy ts then Inr ts else Inr (JStr (dict_str w (JDict latest_data))))
      | Some other \<Rightarrow> Inl (ustr ''TypeError''))"

text \<open>
  One turn of the loop of \<^verbatim>\<open>event_generator\<close> after it has read the data: the events
  it yields and the new value of \<^verbatim>\<open>last_sent_replace_data\<close>; \<open>now\<close> is the time put in
  the event. An exception in the turn is caught by \<^verbatim>\<open>except Exception\<close> and yields an
  error event; the only one that the data of \<^verbatim>\<open>read_latest_data\<close> can cause is the
  \<^verbatim>\<open>KeyError\<close> of \<^verbatim>\<open>data["latest_data"]\<close>.
\<close>

definition publish :: "world \<Rightarrow> int \<Rightarrow> dict \<Rightarrow> json \<Rightarrow> event list \<times> json" where
  "publish w now data last_sent =
     (case map_of data (ustr ''error'') of
        Some detail \<Rightarrow> ([error_event w detail now], last_sent)
      | None \<Rightarrow>
          (case current_data_key w data of
             Inl e \<Rightarrow> ([error_event w (JStr (msg_stream_error @ e)) now], last_sent)
           | Inr current_key \<Rightarrow>
               if current_key \<noteq> last_sent then
                 (case map_of data (ustr ''latest_data'') of
                    None \<Rightarrow>
                      ([error_event w
                          (JStr (msg_stream_error @ [39] @ ustr ''latest_data'' @ [39])) now],
                       last_sent)
                  | Some latest_data \<Rightarrow> ([replace_event w latest_data now], current_key))
               else ([], last_sent)))"

text \<open>
  The loop of one connection, over the turns it takes: each turn reads the latest data
  at one time and yields at another. \<open>polled\<close> lists the data that the turns read.
\<close>

fun event_generator ::
  "world \<Rightarrow> (int \<times> int) list \<Rightarrow> api \<Rightarrow> json \<Rightarrow> event list \<times> api \<times> json" where
  "event_generator w [] s last_sent = ([], s, last_sent)"
| "event_generator w (turn # turns) s last_sent =
     (case read_latest_data w (fst turn) s of
        (a, s1) \<Rightarrow>
          (case publish w (snd turn) (deref s1 a) last_sent of
             (events, last1) \<Rightarrow>
               (case event_generator w turns s1 last1 of
                  (events', s2, last2) \<Rightarrow> (events @ events', s2, last2))))"

fun polled :: "world \<Rightarrow> (int \<times> int) list \<Rightarrow> api \<Rightarrow> dict list" where
  "polled w [] s = []"
| "polled w (turn # turns) s =
     (case read_latest_data w (fst turn) s of
        (a, s1) \<Rightarrow> deref s1 a # polled w turns s1)"

definition is_data_event :: "event \<Rightarrow> bool" where
  "is_data_event e = (case e of Event d \<Rightarrow> has_key d (ustr ''latest_data''))"

definition is_error_event :: "event \<Rightarrow> bool" where
  "is_error_event e = (case e of Event d \<Rightarrow> has_key d (ustr ''error''))"

text \<open>
  \<open>reading_at ts data\<close>: the data are a result without error whose \<^verbatim>\<open>latest_data\<close>
  carries the timestamp \<open>ts\<close>.
\<close>

definition reading_at :: "str \<Rightarrow> dict \<Rightarrow> bool" where
  "reading_at ts data =
     (ts \<noteq> [] \<and> map_of data (ustr ''error'') = None
      \<and> (case map_of data (ustr ''latest_data'') of
            Some (JDict latest_data) \<Rightarrow> map_of latest_data (ustr ''timestamp'') = Some (JStr ts)
          | _ \<Rightarrow> False))"

text \<open>
  A world and a starting state for the examples. The three formatting functions are
  stand-ins. In \<open>world_example\<close> the store answers the first connection with a row,
  refuses the second, answers the third with the same row and the fourth with a newer
  one; in \<open>world_empty\<close> the table has no rows.
\<close>

definition row_example :: "int \<Rightarrow> latest_row" where
  "row_example ts =
     \<lparr>row_timestamp = Some ts, row_ph_value = Some 7, row_orp_value = None,
      row_ntu_value = Some 3\<rparr>"

definition world_example :: world where
  "world_example =
     \<lparr>isoformat = int_str, decimal_str = (\<lambda>x. int_str (floor x)), dict_str = (\<lambda>j. ustr ''{}''),
      fetchrow = (\<lambda>n. if n = 0 then Fetched (Some (row_example 100))
                       else if n = 1 then Refused
                       else if n = 2 then Fetched (Some (row_example 100))
                       else Fetched (Some (row_example 200))),
      fetchval = (\<lambda>n. Counted (Some 42))\<rparr>"

definition world_empty :: world where
  "world_empty =
     \<lparr>isoformat = int_str, decimal_str = (\<lambda>x. int_str (floor x)), dict_str = (\<lambda>j. ustr ''{}''),
      fetchrow = (\<lambda>n. Fetched None), fetchval = (\<lambda>n. Counted (Some 0))\<rparr>"

definition api_start :: api where
  "api_start = \<lparr>objects = [], cached_data = None, last_cache_time = None, connections = 0\<rparr>"

text \<open>
  Three database states for the examples: the connection is open and the server drops it,
  so that the query of \<^verbatim>\<open>check_connection\<close> raises; in \<open>db_lost\<close> the server
  is back for the reconnect, in \<open>db_down\<close> the new connection is refused as well, in
  \<open>db_relost\<close> the server is back for the reconnect (\<^verbatim>\<open>close\<close>, \<^verbatim>\<open>psycopg2.connect\<close>
  and \<^verbatim>\<open>SELECT version();\<close> complete) and the new connection is lost during the
  \<^verbatim>\<open>INSERT\<close>, so that the \<^verbatim>\<open>INSERT\<close> and the rollback both raise.
\<close>

definition db_lost :: sensor_database where
  "db_lost = \<lparr>connection = Some Open, script = [Raise, Ok, Ok, Ok], connects = 1,
     pending = [], sensor_readings = []\<rparr>"

definition db_down :: sensor_database where
  "db_down = \<lparr>connection = Some Open, script = [Raise, Ok, Raise], connects = 1,
     pending = [], sensor_readings = []\<rparr>"

definition db_relost :: sensor_database where
  "db_relost = \<lparr>connection = Some Open, script = [Raise, Ok, Ok, Ok, Raise, Raise], connects = 1,
     pending = [], sensor_readings = []\<rparr>"

section \<open>Properties of the status labels\<close>

lemma ph_labels_distinct: "acidic \<noteq> alkaline" "acidic \<noteq> neutral" "alkaline \<noteq> neutral"
  by (simp_all add: acidic_def alkaline_def neutral_def)

lemma orp_labels_distinct:
  "strongly_oxidizing \<noteq> oxidizing" "strongly_oxidizing \<noteq> weakly_oxidizing"
  "strongly_oxidizing \<noteq> reducing" "oxidizing \<noteq> weakly_oxidizing"
  "oxidizing \<noteq> reducing" "weakly_oxidizing \<noteq> reducing"
  by (simp_all add: strongly_oxidizing_def oxidizing_def weakly_oxidizing_def reducing_def)

text \<open>
  Claim C6. At write time the acidity status is acidic exactly below 6.5, alkaline exactly
  above 7.5 and neutral otherwise, and absent when the acidity is absent; the redox status
  is strongly oxidizing, oxidizing, weakly oxidizing or reducing by the thresholds
  650, 300 and 0, and absent when the redox potential is absent; the quality flag is
  absent when either input is absent (so for no acidity and a redox potential of 900),
  and otherwise true exactly for an acidity in [6.5, 8.5] with a redox potential in
  [200, 800].
\<close>

theorem status_labels_by_threshold:
  "ph_status_of None = None
   \<and> (ph_status_of (Some ph) = Some acidic) = (ph < 6.5)
   \<and> (ph_status_of (Some ph) = Some alkaline) = (ph > 7.5)
   \<and> (ph_status_of (Some ph) = Some neutral) = (6.5 \<le> ph \<and> ph \<le> 7.5)
   \<and> orp_status_of None = None
   \<and> (orp_status_of (Some orp) = Some strongly_oxidizing) = (orp > 650)
   \<and> (orp_status_of (Some orp) = Some oxidizing) = (300 < orp \<and> orp \<le> 650)
   \<and> (orp_status_of (Some orp) = Some weakly_oxidizing) = (0 < orp \<and> orp \<le> 300)
   \<and> (orp_status_of (Some orp) = Some reducing) = (orp \<le> 0)
   \<and> is_water_quality_good None orp' = None
   \<and> is_water_quality_good ph' None = None
   \<and> is_water_quality_good None (Some 900) = None
   \<and> (is_water_quality_good (Some ph) (Some orp) = Some True)
       = (6.5 \<le> ph \<and> ph \<le> 8.5 \<and> 200 \<le> orp \<and> orp \<le> 800)
   \<and> (is_water_quality_good (Some ph) (Some orp) = Some False)
       = (\<not> (6.5 \<le> ph \<and> ph \<le> 8.5 \<and> 200 \<le> orp \<and> orp \<le> 800))"
  using ph_labels_distinct orp_labels_distinct
  by (auto simp: ph_status_of_def orp_status_of_def get_ph_status_def get_orp_status_def
      is_water_quality_good_def split: option.splits)


section \<open>Properties of SensorDatabase\<close>

lemmas db_defs = save_sensor_data_def check_connection_def next_outcome_def reconnect_def
  connect_def close_connection_def write_reading_def on_error_def

text \<open>
  The table after \<open>write_reading\<close> is the table before it, or the table before it with
  the pending rows and the new row, whole: no other table is ever reached.
\<close>

lemma write_reading_result:
  assumes "write_reading row db = (res, db')"
  shows "sensor_readings db' = sensor_readings db \<or> sensor_readings db' = sensor_readings db @ pending db @ [row]"
  using assms
  by (auto simp: write_reading_def on_error_def next_outcome_def split: list.splits outcome.splits if_splits)

lemma write_reading_True:
  assumes "write_reading row db = (Inr True, db')"
  shows "sensor_readings db' = sensor_readings db @ pending db @ [row] \<and> pending db' = []"
  using assms
  by (auto simp: write_reading_def on_error_def next_outcome_def split: list.splits outcome.splits if_splits)

lemma write_reading_healthy:
  assumes "script db = []"
  shows "write_reading row db = (Inr True, db\<lparr>sensor_readings := sensor_readings db @ pending db @ [row], pending := []\<rparr>)"
  using assms
  by (auto simp: write_reading_def on_error_def next_outcome_def split: list.splits outcome.splits if_splits)

lemma connect_True:
  assumes "connect db = (True, db')"
  shows "connection db' = Some Open \<and> pending db' = [] \<and> sensor_readings db' = sensor_readings db \<and> connects db' = Suc (connects db)"
  using assms
  by (auto simp: connect_def next_outcome_def split: list.splits outcome.splits if_splits)

lemma connect_frame:
  assumes "connect db = (b, db')"
  shows "sensor_readings db' = sensor_readings db \<and> connects db' = Suc (connects db)"
  using assms
  by (auto simp: connect_def next_outcome_def split: list.splits outcome.splits if_splits)

lemma close_connection_frame:
  "sensor_readings (close_connection db) = sensor_readings db \<and> connects (close_connection db) = connects db"
  by (auto simp: close_connection_def next_outcome_def split: list.splits outcome.splits if_splits)

lemma reconnect_frame:
  assumes "reconnect db = (b, db')"
  shows "sensor_readings db' = sensor_readings db \<and> connects db' = Suc (connects db)"
  using assms connect_frame[of "close_connection db" b db'] connect_frame[of db b db'] close_connection_frame[of db]
  by (auto simp: reconnect_def split: if_splits)

lemma reconnect_pending:
  assumes "reconnect d = (b, d')"
  shows "set (pending d') \<subseteq> set (pending d)"
  using assms
  by (auto simp: reconnect_def connect_def close_connection_def next_outcome_def
      split: list.splits outcome.splits if_splits)

lemma reconnect_True:
  assumes "reconnect db = (True, db')"
  shows "connection db' = Some Open \<and> pending db' = []"
  using assms connect_True[of "close_connection db" db'] connect_True[of db db']
  by (auto simp: reconnect_def split: if_splits)

lemma check_connection_frame:
  assumes "check_connection db = (b, db')"
  shows "sensor_readings db' = sensor_readings db \<and> connects db' = connects db \<and> pending db' = pending db \<and> connection db' = connection db"
  using assms
  by (auto simp: check_connection_def next_outcome_def split: list.splits outcome.splits if_splits)

lemma write_reading_connects:
  assumes "write_reading row db = (res, db')"
  shows "connects db' = connects db"
  using assms
  by (auto simp: write_reading_def on_error_def next_outcome_def split: list.splits outcome.splits if_splits)

text \<open>
  The check and the reconnect. Every call of \<^verbatim>\<open>save_sensor_data\<close> begins with the
  check of the connection, which passes exactly when the connection is open and the
  round-trip query completes. When the check passes no connection is made. When it fails
  there is exactly one reconnect attempt (one call of \<^verbatim>\<open>psycopg2.connect\<close>). When that
  attempt fails the call returns \<^verbatim>\<open>False\<close>, no exception leaves it and the table is
  unchanged: the reading is dropped. When the attempt succeeds the append proceeds on the
  new connection, and the call ends as \<open>write_reading\<close> ends there: with a server that
  is healthy from then on it returns \<^verbatim>\<open>True\<close> and the row is in the table.
\<close>

lemma save_sensor_data_reconnects_once:
  assumes "check_connection db = (ok, db1)"
    and "reconnect db1 = (re, db2)"
    and "save_sensor_data now ph orp ntu db = (res, db')"
  shows "ok = (connection db = Some Open \<and> (script db = [] \<or> hd (script db) = Ok))
    \<and> (ok \<longrightarrow> connects db' = connects db
               \<and> (res, db') = write_reading (reading_row now ph orp ntu) db1)
    \<and> (\<not> ok \<longrightarrow> connects db' = Suc (connects db))
    \<and> (\<not> ok \<and> \<not> re \<longrightarrow> res = Inr False \<and> sensor_readings db' = sensor_readings db)
    \<and> (\<not> ok \<and> re \<longrightarrow> (res, db') = write_reading (reading_row now ph orp ntu) db2)
    \<and> (\<not> ok \<and> re \<and> script db2 = [] \<longrightarrow>
          res = Inr True
          \<and> sensor_readings db' = sensor_readings db @ [reading_row now ph orp ntu])"
proof -
  let ?row = "reading_row now ph orp ntu"
  have c: "ok = (connection db = Some Open \<and> (script db = [] \<or> hd (script db) = Ok))"
    using assms(1)
    by (auto simp: check_connection_def next_outcome_def split: list.splits outcome.splits if_splits)
  have f1: "sensor_readings db1 = sensor_readings db" "connects db1 = connects db"
    using check_connection_frame[OF assms(1)] by simp_all
  have f2: "sensor_readings db2 = sensor_readings db" "connects db2 = Suc (connects db)"
    using reconnect_frame[OF assms(2)] f1 by simp_all
  show ?thesis
  proof (cases ok)
    case True
    then have "(res, db') = write_reading ?row db1"
      using assms(1,3) by (simp add: save_sensor_data_def)
    then show ?thesis
      using True c f1 write_reading_connects[of ?row db1 res db'] by simp
  next
    case False
    show ?thesis
    proof (cases re)
      case True
      have w: "(res, db') = write_reading ?row db2"
        using assms \<open>\<not> ok\<close> True by (simp add: save_sensor_data_def)
      have p: "pending db2 = []"
        using reconnect_True[of db1 db2] assms(2) True by simp
      show ?thesis
        using w p c False True f2 write_reading_connects[of ?row db2 res db']
          write_reading_healthy[of db2 ?row]
        by auto
    next
      case re: False
      then have "(res, db') = (Inr False, db2)"
        using assms \<open>\<not> ok\<close> by (simp add: save_sensor_data_def)
      then show ?thesis
        using c False re f2 by simp
    qed
  qed
qed

lemma save_sensor_data_reconnects_once_example:
  "fst (save_sensor_data 0 None None (Some 3) db_lost) = Inr True
   \<and> sensor_readings (snd (save_sensor_data 0 None None (Some 3) db_lost)) = [reading_row 0 None None (Some 3)]
   \<and> connects (snd (save_sensor_data 0 None None (Some 3) db_lost)) = 2
   \<and> fst (save_sensor_data 0 None None (Some 3) db_down) = Inr False
   \<and> sensor_readings (snd (save_sensor_data 0 None None (Some 3) db_down)) = []
   \<and> connects (snd (save_sensor_data 0 None None (Some 3) db_down)) = 2"
  using save_sensor_data_reconnects_once [OF surjective_pairing surjective_pairing surjective_pairing,
      where db = db_lost and now = 0 and ph = None and orp = None and ntu = "Some 3"]
    save_sensor_data_reconnects_once [OF surjective_pairing surjective_pairing surjective_pairing,
      where db = db_down and now = 0 and ph = None and orp = None and ntu = "Some 3"]
  by (simp add: db_lost_def db_down_def db_defs)

text \<open>
  Claim C4. Every call of \<^verbatim>\<open>save_sensor_data\<close> first checks the connection with a
  round-trip query; when the check fails there is exactly one reconnect attempt; when the
  reconnect succeeds the append proceeds, when it fails the call returns failure and the
  reading is dropped, and no exception reaches the caller in either case. The code does
  the first four (\<open>save_sensor_data_reconnects_once\<close>), and no exception leaves the
  call when the reconnect fails. When the reconnect succeeds, the append that proceeds is
  the one whose handler \<^verbatim>\<open>except Error\<close> rolls back unguarded: in \<open>db_relost\<close> the
  check fails, the one reconnect succeeds, the \<^verbatim>\<open>INSERT\<close> on the new connection raises,
  the rollback raises as well, and that exception leaves \<^verbatim>\<open>save_sensor_data\<close>.
\<close>

theorem save_sensor_data_raises_after_reconnect:
  "check_connection db_relost = (False, db_relost\<lparr>script := [Ok, Ok, Ok, Raise, Raise]\<rparr>)
   \<and> reconnect (db_relost\<lparr>script := [Ok, Ok, Ok, Raise, Raise]\<rparr>)
       = (True, db_relost\<lparr>script := [Raise, Raise], connects := 2\<rparr>)
   \<and> save_sensor_data 0 (Some 7) (Some 400) (Some 3) db_relost
       = (Inl Psycopg2_Error, db_relost\<lparr>script := [], connects := 2\<rparr>)"
  by (simp add: db_relost_def db_defs)


text \<open>
  A call of \<open>save_sensor_data\<close> that starts with no row pending leaves the table as it
  was or with the whole row of the reading appended, whatever the database does and
  however the call ends; when it returns True the row is in the table.
\<close>

lemma save_sensor_data_atomic:
  assumes "save_sensor_data now ph orp ntu d = (res, d')" and "pending d = []"
  shows "sensor_readings d' = sensor_readings d
       \<or> sensor_readings d' = sensor_readings d @ [reading_row now ph orp ntu]"
    and "res = Inr True \<Longrightarrow> sensor_readings d' = sensor_readings d @ [reading_row now ph orp ntu]"
proof -
  let ?row = "reading_row now ph orp ntu"
  obtain ok d1 where c: "check_connection d = (ok, d1)" by (cases "check_connection d")
  obtain re d2 where r: "reconnect d1 = (re, d2)" by (cases "reconnect d1")
  have p1: "pending d1 = []" "sensor_readings d1 = sensor_readings d"
    using check_connection_frame[OF c] assms(2) by simp_all
  have p2: "pending d2 = []" "sensor_readings d2 = sensor_readings d"
    using reconnect_pending[OF r] reconnect_frame[OF r] p1 by simp_all
  have "save_sensor_data now ph orp ntu d
      = (if ok then write_reading ?row d1
         else if re then write_reading ?row d2 else (Inr False, d2))"
    by (cases ok; cases re) (simp_all add: save_sensor_data_def c r)
  with assms(1) have e: "(if ok then write_reading ?row d1
            else if re then write_reading ?row d2 else (Inr False, d2)) = (res, d')"
    by simp
  consider (a) "ok" "write_reading ?row d1 = (res, d')"
    | (b) "\<not> ok" "re" "write_reading ?row d2 = (res, d')"
    | (c) "\<not> ok" "\<not> re" "d' = d2" "res = Inr False"
    using e by (cases ok; cases re) auto
  then show "sensor_readings d' = sensor_readings d
       \<or> sensor_readings d' = sensor_readings d @ [?row]"
  proof cases
    case a
    from write_reading_result[OF a(2)] p1 show ?thesis by simp
  next
    case b
    from write_reading_result[OF b(3)] p2 show ?thesis by simp
  next
    case c
    with p2 show ?thesis by simp
  qed
  assume "res = Inr True"
  with e consider (a) "ok" "write_reading ?row d1 = (Inr True, d')"
    | (b) "\<not> ok" "re" "write_reading ?row d2 = (Inr True, d')"
    by (cases ok; cases re) auto
  then show "sensor_readings d' = sensor_readings d @ [?row]"
  proof cases
    case a
    from write_reading_True[OF a(2)] p1 show ?thesis by simp
  next
    case b
    from write_reading_True[OF b(3)] p2 show ?thesis by simp
  qed
qed


text \<open>
  A call that returns \<^verbatim>\<open>False\<close> may have written the row: when the query that reads
  the last row back raises after the commit, the handler rolls back a transaction that
  holds nothing and returns \<^verbatim>\<open>False\<close>, and the committed row stays.
\<close>

lemma save_sensor_data_False_after_commit:
  "save_sensor_data 0 (Some 7) (Some 400) (Some 3)
     \<lparr>connection = Some Open, script = [Ok, Ok, Ok, Raise, Ok], connects = 1, pending = [],
      sensor_readings = []\<rparr>
   = (Inr False,
      \<lparr>connection = Some Open, script = [], connects = 1, pending = [],
       sensor_readings = [reading_row 0 (Some 7) (Some 400) (Some 3)]\<rparr>)"
  by (simp add: db_defs)


text \<open>
  Claim C5. An append that has begun its write either commits the full row or, on a
  database error, rolls back and reports failure rather than raising. The code rolls
  back inside the handler \<^verbatim>\<open>except Error\<close>, unguarded: when the connection is lost
  during the \<^verbatim>\<open>INSERT\<close>, the \<^verbatim>\<open>INSERT\<close> raises, the rollback on the lost connection
  raises as well, and that exception leaves \<^verbatim>\<open>save_sensor_data\<close>. First: the check
  of the connection completes, the \<^verbatim>\<open>INSERT\<close> raises, the rollback raises. Second, for
  comparison: the same, but the rollback completes, and the call returns \<^verbatim>\<open>False\<close>.
\<close>

theorem save_sensor_data_raises:
  "save_sensor_data 0 (Some 7) (Some 400) (Some 3)
     \<lparr>connection = Some Open, script = [Ok, Raise, Raise], connects = 1, pending = [],
      sensor_readings = []\<rparr>
   = (Inl Psycopg2_Error,
      \<lparr>connection = Some Open, script = [], connects = 1, pending = [], sensor_readings = []\<rparr>)
   \<and> save_sensor_data 0 (Some 7) (Some 400) (Some 3)
     \<lparr>connection = Some Open, script = [Ok, Raise, Ok], connects = 1, pending = [],
      sensor_readings = []\<rparr>
   = (Inr False,
      \<lparr>connection = Some Open, script = [], connects = 1, pending = [], sensor_readings = []\<rparr>)"
  by (simp add: db_defs)

section \<open>Properties of SensorDataParser\<close>

text \<open>
  The matcher is sound and complete for the reading of the patterns as sets of texts:
  what \<open>rmatch\<close> leaves are exactly the rests of the text after a text of the
  expression.
\<close>

lemma many_set: "set (many p s) = {t. \<exists>w. s = w @ t \<and> (\<forall>c\<in>set w. p c)}"
proof (induction s)
  case Nil
  then show ?case by auto
next
  case (Cons c cs)
  show ?case
  proof (cases "p c")
    case True
    have "{t. \<exists>w. c # cs = w @ t \<and> (\<forall>c\<in>set w. p c)}
        = insert (c # cs) {t. \<exists>w. cs = w @ t \<and> (\<forall>c\<in>set w. p c)}" (is "?L = ?R")
    proof
      show "?L \<subseteq> ?R"
      proof
        fix t assume "t \<in> ?L"
        then obtain w where w: "c # cs = w @ t" "\<forall>c\<in>set w. p c" by auto
        show "t \<in> ?R"
        proof (cases w)
          case Nil
          with w show ?thesis by simp
        next
          case (Cons a w')
          with w have "cs = w' @ t" "\<forall>c\<in>set w'. p c" by auto
          then show ?thesis by auto
        qed
      qed
      show "?R \<subseteq> ?L"
      proof
        fix t assume "t \<in> ?R"
        then consider "t = c # cs" | w where "cs = w @ t" "\<forall>c\<in>set w. p c" by auto
        then show "t \<in> ?L"
        proof cases
          case 1
          then have "c # cs = [] @ t \<and> (\<forall>c\<in>set []. p c)" by simp
          then show ?thesis by blast
        next
          case 2
          with True have "c # cs = (c # w) @ t \<and> (\<forall>x\<in>set (c # w). p x)" by simp
          then show ?thesis by blast
        qed
      qed
    qed
    with True Cons show ?thesis by simp
  next
    case False
    have "{t. \<exists>w. c # cs = w @ t \<and> (\<forall>c\<in>set w. p c)} = {c # cs}" (is "?L = ?R")
    proof
      show "?L \<subseteq> ?R"
      proof
        fix t assume "t \<in> ?L"
        then obtain w where w: "c # cs = w @ t" "\<forall>c\<in>set w. p c" by auto
        with False have "w = []" by (cases w) auto
        with w show "t \<in> ?R" by simp
      qed
      show "?R \<subseteq> ?L" by auto
    qed
    with False show ?thesis by simp
  qed
qed

lemma rmatch_set: "set (rmatch nd r s) = {t. \<exists>w. s = w @ t \<and> w \<in> lang nd r}"
proof (induction r arbitrary: s)
  case Eps
  then show ?case by auto
next
  case (Atom a)
  then show ?case by (cases s) auto
next
  case (Many a)
  then show ?case by (simp add: many_set)
next
  case (Many1 a)
  show ?case
  proof (cases s)
    case Nil
    then show ?thesis by auto
  next
    case (Cons c cs)
    show ?thesis
    proof (cases "atom_match nd a c")
      case True
      have "{t. \<exists>w. c # cs = w @ t \<and> w \<noteq> [] \<and> (\<forall>x\<in>set w. atom_match nd a x)}
          = {t. \<exists>w. cs = w @ t \<and> (\<forall>x\<in>set w. atom_match nd a x)}" (is "?L = ?R")
      proof
        show "?L \<subseteq> ?R"
        proof
          fix t assume "t \<in> ?L"
          then obtain w where w: "c # cs = w @ t" "w \<noteq> []" "\<forall>x\<in>set w. atom_match nd a x" by auto
          then obtain w' where "w = c # w'" by (cases w) auto
          with w have "cs = w' @ t \<and> (\<forall>x\<in>set w'. atom_match nd a x)" by simp
          then show "t \<in> ?R" by blast
        qed
        show "?R \<subseteq> ?L"
        proof
          fix t assume "t \<in> ?R"
          then obtain w where "cs = w @ t" "\<forall>x\<in>set w. atom_match nd a x" by auto
          with True have "c # cs = (c # w) @ t \<and> c # w \<noteq> [] \<and> (\<forall>x\<in>set (c # w). atom_match nd a x)"
            by simp
          then show "t \<in> ?L" by blast
        qed
      qed
      with True Cons show ?thesis by (simp add: many_set)
    next
      case False
      have "\<And>w t. c # cs = w @ t \<Longrightarrow> w \<noteq> [] \<Longrightarrow> \<forall>x\<in>set w. atom_match nd a x \<Longrightarrow> False"
      proof -
        fix w t assume "c # cs = w @ t" "w \<noteq> []" "\<forall>x\<in>set w. atom_match nd a x"
        then show False using False by (cases w) auto
      qed
      then have "{t. \<exists>w. c # cs = w @ t \<and> w \<noteq> [] \<and> (\<forall>x\<in>set w. atom_match nd a x)} = {}"
        by blast
      with False Cons show ?thesis by simp
    qed
  qed
next
  case (Maybe a)
  then show ?case by (cases s) (auto simp: Cons_eq_append_conv)
next
  case (Seq r1 r2)
  have "set (rmatch nd (Seq r1 r2) s) = (\<Union>t1\<in>set (rmatch nd r1 s). set (rmatch nd r2 t1))"
    by simp
  also have "\<dots> = {t. \<exists>w1 t1. s = w1 @ t1 \<and> w1 \<in> lang nd r1 \<and> (\<exists>w2. t1 = w2 @ t \<and> w2 \<in> lang nd r2)}"
    unfolding Seq.IH by blast
  also have "\<dots> = {t. \<exists>w. s = w @ t \<and> w \<in> lang nd (Seq r1 r2)}" (is "?L = ?R")
  proof
    show "?L \<subseteq> ?R"
    proof
      fix t assume "t \<in> ?L"
      then obtain w1 t1 w2 where "s = w1 @ t1" "w1 \<in> lang nd r1" "t1 = w2 @ t" "w2 \<in> lang nd r2"
        by blast
      then have "s = (w1 @ w2) @ t \<and> w1 @ w2 \<in> lang nd (Seq r1 r2)" by auto
      then show "t \<in> ?R" by blast
    qed
    show "?R \<subseteq> ?L"
    proof
      fix t assume "t \<in> ?R"
      then obtain w where "s = w @ t" "w \<in> lang nd (Seq r1 r2)" by blast
      then obtain u v where "w = u @ v" "u \<in> lang nd r1" "v \<in> lang nd r2" by auto
      with \<open>s = w @ t\<close> have "s = u @ (v @ t) \<and> u \<in> lang nd r1 \<and> (\<exists>w2. v @ t = w2 @ t \<and> w2 \<in> lang nd r2)"
        by auto
      then show "t \<in> ?L" by blast
    qed
  qed
  finally show ?case .
next
  case (Or r1 r2)
  then show ?case by auto
qed


lemma match_at_set:
  "set (concat (map (\<lambda>s1. map (\<lambda>s2. take (length s1 - length s2) s1) (rmatch nd grp s1))
                    (rmatch nd pre s)))
   = {g. \<exists>l v. s = l @ g @ v \<and> l \<in> lang nd pre \<and> g \<in> lang nd grp}" (is "?L = ?R")
proof
  show "?L \<subseteq> ?R"
  proof
    fix g assume "g \<in> ?L"
    then obtain s1 s2 where s1: "s1 \<in> set (rmatch nd pre s)" and s2: "s2 \<in> set (rmatch nd grp s1)"
      and g: "g = take (length s1 - length s2) s1" by auto
    from s1 obtain l where l: "s = l @ s1" "l \<in> lang nd pre" by (auto simp: rmatch_set)
    from s2 obtain w where w: "s1 = w @ s2" "w \<in> lang nd grp" by (auto simp: rmatch_set)
    from g w have "g = w" by simp
    with l w have "s = l @ g @ s2 \<and> l \<in> lang nd pre \<and> g \<in> lang nd grp" by simp
    then show "g \<in> ?R" by blast
  qed
  show "?R \<subseteq> ?L"
  proof
    fix g assume "g \<in> ?R"
    then obtain l v where lv: "s = l @ g @ v" "l \<in> lang nd pre" "g \<in> lang nd grp" by blast
    then have s1: "g @ v \<in> set (rmatch nd pre s)" by (auto simp: rmatch_set)
    from lv have s2: "v \<in> set (rmatch nd grp (g @ v))" by (auto simp: rmatch_set)
    have "take (length (g @ v) - length v) (g @ v) = g" by simp
    with s1 s2 show "g \<in> ?L" by force
  qed
qed

lemma match_at_Some:
  assumes "match_at nd p s = Some g"
  shows "\<exists>l v. s = l @ g @ v \<and> l \<in> lang nd (before_group p) \<and> g \<in> lang nd (group1 p)"
proof -
  define xs where "xs = concat (map (\<lambda>s1. map (\<lambda>s2. take (length s1 - length s2) s1)
      (rmatch nd (group1 p) s1)) (rmatch nd (before_group p) s))"
  have "match_at nd p s = (case xs of [] \<Rightarrow> None | g # _ \<Rightarrow> Some g)"
    by (simp add: match_at_def xs_def)
  with assms have "g \<in> set xs"
    by (cases xs) auto
  then show ?thesis unfolding xs_def match_at_set by blast
qed

lemma match_at_None:
  "(match_at nd p s = None)
   = (\<not> (\<exists>l g v. s = l @ g @ v \<and> l \<in> lang nd (before_group p) \<and> g \<in> lang nd (group1 p)))"
proof -
  define xs where "xs = concat (map (\<lambda>s1. map (\<lambda>s2. take (length s1 - length s2) s1)
      (rmatch nd (group1 p) s1)) (rmatch nd (before_group p) s))"
  have "match_at nd p s = (case xs of [] \<Rightarrow> None | g # _ \<Rightarrow> Some g)"
    by (simp add: match_at_def xs_def)
  then have "(match_at nd p s = None) = (set xs = {})"
    by (cases xs) simp_all
  also have "\<dots> = (\<not> (\<exists>l g v. s = l @ g @ v \<and> l \<in> lang nd (before_group p) \<and> g \<in> lang nd (group1 p)))"
    unfolding xs_def match_at_set by blast
  finally show ?thesis .
qed

lemma re_search_Some:
  assumes "re_search nd p t = Some g"
  shows "\<exists>u l v. t = u @ l @ g @ v \<and> l \<in> lang nd (before_group p) \<and> g \<in> lang nd (group1 p)"
  using assms
proof (induction t)
  case Nil
  then have "match_at nd p [] = Some g" by simp
  from match_at_Some[OF this] obtain l v where
    "[] = [] @ l @ g @ v \<and> l \<in> lang nd (before_group p) \<and> g \<in> lang nd (group1 p)" by auto
  then show ?case by blast
next
  case (Cons c cs)
  show ?case
  proof (cases "match_at nd p (c # cs)")
    case None
    with Cons.prems have "re_search nd p cs = Some g" by simp
    from Cons.IH[OF this] obtain u l v where
      "cs = u @ l @ g @ v" "l \<in> lang nd (before_group p)" "g \<in> lang nd (group1 p)" by blast
    then have "c # cs = (c # u) @ l @ g @ v \<and> l \<in> lang nd (before_group p) \<and> g \<in> lang nd (group1 p)"
      by simp
    then show ?thesis by blast
  next
    case (Some g')
    with Cons.prems have "match_at nd p (c # cs) = Some g" by simp
    from match_at_Some[OF this] obtain l v where
      "c # cs = [] @ l @ g @ v \<and> l \<in> lang nd (before_group p) \<and> g \<in> lang nd (group1 p)" by auto
    then show ?thesis by blast
  qed
qed

lemma re_search_None: "(re_search nd p t = None) = (\<not> occurs nd p t)"
proof (induction t)
  case Nil
  show ?case by (simp add: match_at_None occurs_def)
next
  case (Cons c cs)
  have "occurs nd p (c # cs)
      = ((\<exists>l g v. c # cs = l @ g @ v \<and> l \<in> lang nd (before_group p) \<and> g \<in> lang nd (group1 p))
         \<or> occurs nd p cs)" (is "?A = (?B \<or> ?C)")
  proof
    assume ?A
    then obtain u l g v where o: "c # cs = u @ l @ g @ v" "l \<in> lang nd (before_group p)"
      "g \<in> lang nd (group1 p)" unfolding occurs_def by blast
    show "?B \<or> ?C"
    proof (cases u)
      case Nil
      with o show ?thesis by auto
    next
      case (Cons a u')
      with o have "cs = u' @ l @ g @ v" by simp
      with o(2,3) have ?C unfolding occurs_def by blast
      then show ?thesis ..
    qed
  next
    assume "?B \<or> ?C"
    then show ?A
    proof
      assume ?B
      then obtain l g v where "c # cs = [] @ l @ g @ v" "l \<in> lang nd (before_group p)"
        "g \<in> lang nd (group1 p)" by auto
      then show ?A unfolding occurs_def by blast
    next
      assume ?C
      then obtain u l g v where "cs = u @ l @ g @ v" "l \<in> lang nd (before_group p)"
        "g \<in> lang nd (group1 p)" unfolding occurs_def by blast
      then have "c # cs = (c # u) @ l @ g @ v \<and> l \<in> lang nd (before_group p) \<and> g \<in> lang nd (group1 p)"
        by simp
      then show ?A unfolding occurs_def by blast
    qed
  qed
  moreover have "(re_search nd p (c # cs) = None)
      = (match_at nd p (c # cs) = None \<and> re_search nd p cs = None)"
    by (simp split: option.splits)
  ultimately show ?case using Cons.IH by (simp add: match_at_None)
qed


lemma ignorecase_eq_sign: "ignorecase_eq 45 c = (c = 45)" "ignorecase_eq 46 c = (c = 46)"
  by (auto simp: ignorecase_eq_def ascii_lower_def)

lemma decimal_Some: "\<forall>c\<in>set ds. nd c \<noteq> None \<Longrightarrow> \<exists>n. decimal nd acc ds = Some n"
  by (induction ds arbitrary: acc) auto

lemma py_int_digits:
  assumes "nd 43 = None" and "nd 45 = None" and "ds \<noteq> []" and "\<forall>c\<in>set ds. nd c \<noteq> None"
  shows "\<exists>n. py_int nd ds = Some n" and "\<exists>n. py_int nd (45 # ds) = Some n"
proof -
  obtain n where n: "decimal nd 0 ds = Some n" using decimal_Some[OF assms(4)] by blast
  obtain c cs where ds: "ds = c # cs" using assms(3) by (cases ds) auto
  with assms have "c \<noteq> 43" "c \<noteq> 45" by auto
  with ds have "unsigned ds = (False, ds)" by (simp add: unsigned_def)
  with n assms(3) show "\<exists>n. py_int nd ds = Some n" by (simp add: py_int_def)
  have "unsigned (45 # ds) = (True, ds)" by (simp add: unsigned_def)
  with n assms(3) show "\<exists>n. py_int nd (45 # ds) = Some n" by (simp add: py_int_def)
qed

lemma py_int_group:
  assumes "nd 43 = None" and "nd 45 = None"
    and "g \<in> lang nd (Seq (Maybe (Chr 45)) (Many1 Decimal))"
  shows "\<exists>n. py_int nd g = Some n"
proof -
  from assms(3) obtain sg ds where g: "g = sg @ ds" "sg = [] \<or> sg = [45]" "ds \<noteq> []"
    "\<forall>c\<in>set ds. nd c \<noteq> None"
    by (auto simp: ignorecase_eq_sign)
  from g(2) show ?thesis
  proof
    assume "sg = []"
    with g py_int_digits(1)[OF assms(1,2) g(3,4)] show ?thesis by simp
  next
    assume "sg = [45]"
    with g py_int_digits(2)[OF assms(1,2) g(3,4)] show ?thesis by simp
  qed
qed

lemma py_float_digits:
  assumes "nd 43 = None" and "nd 45 = None" and "nd 46 = None"
    and "ds \<noteq> []" and "\<forall>c\<in>set ds. nd c \<noteq> None" and "\<forall>c\<in>set fs. nd c \<noteq> None"
    and "dt = [] \<or> dt = [46]"
  shows "\<exists>x. py_float nd (ds @ dt @ fs) = Some x" and "\<exists>x. py_float nd (45 # ds @ dt @ fs) = Some x"
proof -
  let ?body = "ds @ dt @ fs"
  have no46: "\<And>c. c \<in> set ds \<Longrightarrow> c \<noteq> 46" "\<And>c. c \<in> set fs \<Longrightarrow> c \<noteq> 46"
    using assms(3,5,6) by auto
  obtain c cs where ds: "ds = c # cs" using assms(4) by (cases ds) auto
  with assms have "c \<noteq> 43" "c \<noteq> 45" by auto
  with ds have u1: "unsigned ?body = (False, ?body)" by (simp add: unsigned_def)
  have u2: "unsigned (45 # ?body) = (True, ?body)" by (simp add: unsigned_def)
  have "\<exists>ip fp. takeWhile (\<lambda>c. c \<noteq> 46) ?body = ip \<and> drop 1 (dropWhile (\<lambda>c. c \<noteq> 46) ?body) = fp
      \<and> ip \<noteq> [] \<and> (\<forall>c\<in>set ip. nd c \<noteq> None) \<and> (\<forall>c\<in>set fp. nd c \<noteq> None)"
    using assms(7)
  proof
    assume dt: "dt = []"
    have all: "\<forall>c\<in>set (ds @ fs). c \<noteq> 46" using no46 by auto
    have 1: "takeWhile (\<lambda>c. c \<noteq> 46) (ds @ fs) = ds @ fs"
      using all by (subst takeWhile_eq_all_conv) blast
    have 2: "dropWhile (\<lambda>c. c \<noteq> 46) (ds @ fs) = []"
      using all by (subst dropWhile_eq_Nil_conv) blast
    have 3: "ds @ fs \<noteq> []" using assms(4) by simp
    have 4: "\<forall>c\<in>set (ds @ fs). nd c \<noteq> None" using assms(5,6) by auto
    show ?thesis unfolding dt append_Nil 1 2 using 3 4 by simp
  next
    assume dt: "dt = [46]"
    have 1: "takeWhile (\<lambda>c. c \<noteq> 46) (ds @ [46] @ fs) = ds"
      using no46(1) by (simp add: takeWhile_append2)
    have 2: "dropWhile (\<lambda>c. c \<noteq> 46) (ds @ [46] @ fs) = 46 # fs"
      using no46(1) by (simp add: dropWhile_append2)
    show ?thesis unfolding dt 1 2 using assms(4,5,6) by simp
  qed
  then obtain ip fp where ip: "takeWhile (\<lambda>c. c \<noteq> 46) ?body = ip"
    "drop 1 (dropWhile (\<lambda>c. c \<noteq> 46) ?body) = fp" "ip \<noteq> []"
    "\<forall>c\<in>set ip. nd c \<noteq> None" "\<forall>c\<in>set fp. nd c \<noteq> None" by blast
  obtain i where i: "decimal nd 0 ip = Some i" using decimal_Some[OF ip(4)] by blast
  obtain f where f: "decimal nd 0 fp = Some f" using decimal_Some[OF ip(5)] by blast
  show "\<exists>x. py_float nd ?body = Some x"
    using u1 ip(1,2,3) i f by (simp add: py_float_def Let_def)
  show "\<exists>x. py_float nd (45 # ?body) = Some x"
    using u2 ip(1,2,3) i f by (simp add: py_float_def Let_def)
qed

lemma py_float_group:
  assumes "nd 43 = None" and "nd 45 = None" and "nd 46 = None"
    and "g \<in> lang nd (Seq (Maybe (Chr 45)) (Seq (Many1 Decimal) (Seq (Maybe (Chr 46)) (Many Decimal))))"
  shows "\<exists>x. py_float nd g = Some x"
proof -
  from assms(4) obtain sg ds dt fs where g: "g = sg @ ds @ dt @ fs" "sg = [] \<or> sg = [45]"
    "ds \<noteq> []" "\<forall>c\<in>set ds. nd c \<noteq> None" "dt = [] \<or> dt = [46]" "\<forall>c\<in>set fs. nd c \<noteq> None"
    by (auto simp: ignorecase_eq_sign)
  from g(2) show ?thesis
  proof
    assume "sg = []"
    with g(1) py_float_digits(1)[OF assms(1,2,3) g(3,4,6,5)] show ?thesis by simp
  next
    assume "sg = [45]"
    with g(1) py_float_digits(2)[OF assms(1,2,3) g(3,4,6,5)] show ?thesis by simp
  qed
qed


lemmas parse_defs = parse_sensor_data_def cleaned_def printable_def match_at_def
  ignorecase_eq_def ascii_lower_def is_space_def ascii_nd_def ph_pattern_def orp_pattern_def
  ntu_pattern_def ustr_def py_float_def py_int_def unsigned_def Let_def

text \<open>
  Claim C7. \<^verbatim>\<open>parse_sensor_data\<close> gives three absent values for an absent or empty
  text. For any other text each of the three values is present exactly when its own
  pattern matches the text cleaned of control characters, whatever the other two
  patterns do; a value that is present is the number that \<^verbatim>\<open>float\<close> or \<^verbatim>\<open>int\<close>
  reads from the text of the group of a match of that pattern, so a field with no match
  (or with a captured text that does not read as a number) is absent. The table of
  decimal digits is any table in which the signs and the full stop are not digits.
\<close>

theorem parse_sensor_data_exact:
  assumes "nd 43 = None" and "nd 45 = None" and "nd 46 = None"
    and "parse_sensor_data nd (Some s) = (ph, orp, ntu)"
  shows "parse_sensor_data nd None = (None, None, None)
    \<and> parse_sensor_data nd (Some []) = (None, None, None)
    \<and> (ph \<noteq> None) = (s \<noteq> [] \<and> occurs nd ph_pattern (cleaned s))
    \<and> (orp \<noteq> None) = (s \<noteq> [] \<and> occurs nd orp_pattern (cleaned s))
    \<and> (ntu \<noteq> None) = (s \<noteq> [] \<and> occurs nd ntu_pattern (cleaned s))
    \<and> (\<forall>x. ph = Some x \<longrightarrow>
          (\<exists>u l g v. cleaned s = u @ l @ g @ v \<and> l \<in> lang nd (before_group ph_pattern)
             \<and> g \<in> lang nd (group1 ph_pattern) \<and> py_float nd g = Some x))
    \<and> (\<forall>n. orp = Some n \<longrightarrow>
          (\<exists>u l g v. cleaned s = u @ l @ g @ v \<and> l \<in> lang nd (before_group orp_pattern)
             \<and> g \<in> lang nd (group1 orp_pattern) \<and> py_int nd g = Some n))
    \<and> (\<forall>n. ntu = Some n \<longrightarrow>
          (\<exists>u l g v. cleaned s = u @ l @ g @ v \<and> l \<in> lang nd (before_group ntu_pattern)
             \<and> g \<in> lang nd (group1 ntu_pattern) \<and> py_int nd g = Some n))"
proof (cases "s = []")
  case True
  with assms(4) show ?thesis by (simp add: parse_sensor_data_def)
next
  case False
  let ?c = "cleaned s"
  from assms(4) False have ph: "ph = Option.bind (re_search nd ph_pattern ?c) (py_float nd)"
    and orp: "orp = Option.bind (re_search nd orp_pattern ?c) (py_int nd)"
    and ntu: "ntu = Option.bind (re_search nd ntu_pattern ?c) (py_int nd)"
    by (simp_all add: parse_sensor_data_def Let_def)
  have gph: "\<And>g. g \<in> lang nd (group1 ph_pattern) \<Longrightarrow> \<exists>x. py_float nd g = Some x"
    using py_float_group[OF assms(1,2,3)] by (simp add: ph_pattern_def)
  have gorp: "\<And>g. g \<in> lang nd (group1 orp_pattern) \<Longrightarrow> \<exists>n. py_int nd g = Some n"
    using py_int_group[OF assms(1,2)] by (simp add: orp_pattern_def)
  have gntu: "\<And>g. g \<in> lang nd (group1 ntu_pattern) \<Longrightarrow> \<exists>n. py_int nd g = Some n"
    using py_int_group[OF assms(1,2)] by (simp add: ntu_pattern_def)
  have present: "(Option.bind (re_search nd p ?c) f \<noteq> None) = occurs nd p ?c"
    if "\<And>g. g \<in> lang nd (group1 p) \<Longrightarrow> \<exists>y. f g = Some y" for p and f :: "str \<Rightarrow> 'a option"
  proof (cases "re_search nd p ?c")
    case None
    then show ?thesis using re_search_None[of nd p ?c] by simp
  next
    case (Some g)
    then have "g \<in> lang nd (group1 p)" using re_search_Some[of nd p ?c g] by blast
    with that obtain y where "f g = Some y" by blast
    moreover have "occurs nd p ?c" using Some re_search_None[of nd p ?c] by simp
    ultimately show ?thesis using Some by simp
  qed
  have read: "\<exists>u l g v. ?c = u @ l @ g @ v \<and> l \<in> lang nd (before_group p)
      \<and> g \<in> lang nd (group1 p) \<and> f g = Some y"
    if "Option.bind (re_search nd p ?c) f = Some y" for p y and f :: "str \<Rightarrow> 'a option"
  proof -
    from that obtain g where g: "re_search nd p ?c = Some g" "f g = Some y"
      by (cases "re_search nd p ?c") auto
    from re_search_Some[OF g(1)] g(2) show ?thesis by blast
  qed
  show ?thesis
    using False present[OF gph] present[OF gorp] present[OF gntu]
      read[of ph_pattern "py_float nd"] read[of orp_pattern "py_int nd"] read[of ntu_pattern "py_int nd"]
    unfolding ph orp ntu
    by (simp add: parse_sensor_data_def)
qed

theorem parse_sensor_data_exact_witness:
  "ascii_nd 43 = None \<and> ascii_nd 45 = None \<and> ascii_nd 46 = None
   \<and> parse_sensor_data ascii_nd (Some (ustr ''pH value: 7.5 ORP: 400'')) = (Some 7.5, Some 400, None)
   \<and> occurs ascii_nd ph_pattern (cleaned (ustr ''pH value: 7.5 ORP: 400''))
   \<and> occurs ascii_nd orp_pattern (cleaned (ustr ''pH value: 7.5 ORP: 400''))
   \<and> \<not> occurs ascii_nd ntu_pattern (cleaned (ustr ''pH value: 7.5 ORP: 400''))"
proof -
  have n: "ascii_nd 43 = None" "ascii_nd 45 = None" "ascii_nd 46 = None"
    by (simp_all add: ascii_nd_def)
  have e: "parse_sensor_data ascii_nd (Some (ustr ''pH value: 7.5 ORP: 400'')) = (Some 7.5, Some 400, None)"
    by (simp add: parse_defs)
  show ?thesis
    using n e parse_sensor_data_exact [OF n e] by (simp add: ustr_def)
qed



section \<open>Properties of the ingestion loop\<close>

lemmas loop_defs = loop_body_def max_consecutive_errors_def

lemma ingest_stopped: "stopped st \<noteq> None \<Longrightarrow> ingest nd inps st = st"
  by (cases inps) auto

lemma ingest_append: "ingest nd (xs @ ys) st = ingest nd ys (ingest nd xs st)"
  by (induction xs arbitrary: st) (auto simp: ingest_stopped)

lemma loop_body_unparsed:
  assumes "raw \<noteq> []" and "parse_sensor_data nd (Some raw) = (None, None, None)"
  shows "loop_body nd (Some raw, now) st =
     (if consecutive_errors st + 1 \<ge> 10
      then st\<lparr>consecutive_errors := consecutive_errors st + 1, stopped := Some Aborted\<rparr>
      else if is_system_message raw then st\<lparr>consecutive_errors := 0\<rparr>
      else st\<lparr>consecutive_errors := consecutive_errors st + 1\<rparr>)"
  using assms by (simp add: loop_defs Let_def)

lemma ingest_unparsed:
  assumes "raw \<noteq> []" and "parse_sensor_data nd (Some raw) = (None, None, None)"
    and "\<not> is_system_message raw"
    and "stopped st = None" and "consecutive_errors st + k < 10"
  shows "ingest nd (replicate k (Some raw, now)) st
         = st\<lparr>consecutive_errors := consecutive_errors st + k\<rparr>"
  using assms(4,5)
proof (induction k arbitrary: st)
  case 0
  then show ?case by simp
next
  case (Suc k)
  let ?st1 = "st\<lparr>consecutive_errors := consecutive_errors st + 1\<rparr>"
  have b: "loop_body nd (Some raw, now) st = ?st1"
    using loop_body_unparsed[OF assms(1,2), of now st] assms(3) Suc.prems by simp
  have "ingest nd (replicate (Suc k) (Some raw, now)) st = ingest nd (replicate k (Some raw, now)) ?st1"
    using Suc.prems b by simp
  also have "\<dots> = ?st1\<lparr>consecutive_errors := consecutive_errors ?st1 + k\<rparr>"
    using Suc.prems by (intro Suc.IH) simp_all
  finally show ?case by simp
qed

text \<open>
  When the loop aborts: in a turn whose line yields no values, taken with nine or more
  consecutive errors counted, whether or not the line is a system message. Ten
  consecutive lines that yield no values and are no system messages abort it at the
  tenth; a system message that comes earlier resets the counter.
\<close>

lemma loop_body_aborts:
  assumes "stopped st = None"
  shows "(stopped (loop_body nd (line, now) st) = Some Aborted)
       = (\<exists>raw. line = Some raw \<and> raw \<noteq> []
              \<and> parse_sensor_data nd (Some raw) = (None, None, None)
              \<and> consecutive_errors st \<ge> 9)"
proof (cases "\<exists>raw. line = Some raw \<and> raw \<noteq> []")
  case False
  then show ?thesis using assms by (cases line) (auto simp: loop_body_def)
next
  case True
  then obtain raw where raw: "line = Some raw" "raw \<noteq> []" by blast
  obtain ph orp ntu where p: "parse_sensor_data nd (Some raw) = (ph, orp, ntu)"
    by (cases "parse_sensor_data nd (Some raw)") auto
  show ?thesis
  proof (cases "ph = None \<and> orp = None \<and> ntu = None")
    case True
    with p have "parse_sensor_data nd (Some raw) = (None, None, None)" by simp
    from loop_body_unparsed[OF raw(2) this, of now st] this raw assms show ?thesis
      by auto
  next
    case False
    obtain res d' where s: "save_sensor_data now ph orp ntu (database st) = (res, d')"
      by (cases "save_sensor_data now ph orp ntu (database st)")
    from False p raw s assms have "stopped (loop_body nd (line, now) st) \<noteq> Some Aborted"
      by (cases res) (auto simp: loop_body_def Let_def)
    with False p raw show ?thesis by auto
  qed
qed

lemma ingest_aborts_at_tenth:
  assumes "raw \<noteq> []" and "parse_sensor_data nd (Some raw) = (None, None, None)"
    and "\<not> is_system_message raw"
    and "stopped st = None" and "consecutive_errors st = 0"
  shows "stopped (ingest nd (replicate 9 (Some raw, now)) st) = None"
    and "stopped (ingest nd (replicate 10 (Some raw, now)) st) = Some Aborted"
proof -
  have 9: "ingest nd (replicate 9 (Some raw, now)) st = st\<lparr>consecutive_errors := 9\<rparr>"
    using ingest_unparsed[OF assms(1,2,3,4), of 9 now] assms(5) by simp
  with assms(4) show "stopped (ingest nd (replicate 9 (Some raw, now)) st) = None" by simp
  have "replicate (9 + 1) (Some raw, now) = replicate 9 (Some raw, now) @ replicate 1 (Some raw, now)"
    by (rule replicate_add)
  then have "replicate 10 (Some raw, now) = replicate 9 (Some raw, now) @ [(Some raw, now)]"
    by simp
  then have "ingest nd (replicate 10 (Some raw, now)) st
      = ingest nd [(Some raw, now)] (st\<lparr>consecutive_errors := 9\<rparr>)"
    using 9 by (simp add: ingest_append)
  then show "stopped (ingest nd (replicate 10 (Some raw, now)) st) = Some Aborted"
    using loop_body_unparsed[OF assms(1,2), of now "st\<lparr>consecutive_errors := 9\<rparr>"] assms(4)
    by simp
qed

lemma noise_unparsed: "parse_sensor_data ascii_nd (Some (ustr ''??'')) = (None, None, None)"
  by (simp add: parse_defs)

lemma noise_no_message: "\<not> is_system_message (ustr ''??'')"
  by (simp add: is_system_message_def py_lower_def ustr_def ascii_lower_def)

lemma ready_unparsed: "parse_sensor_data ascii_nd (Some (ustr ''Sensor ready'')) = (None, None, None)"
  by (simp add: parse_defs)

lemma ready_message: "is_system_message (ustr ''Sensor ready'')"
  by (simp add: is_system_message_def py_lower_def ustr_def ascii_lower_def)

text \<open>
  Claim C2. The loop aborts exactly when ten consecutive lines yield no values and none
  of them is a system message; a system message resets the counter and never triggers
  the abort. In the code the counter is raised and compared with the threshold before
  the line is tested for a system message, so a system message that arrives after nine
  consecutive unparsable lines is counted as the tenth and aborts the loop: after nine
  lines of noise the loop is still running, and the line \<^verbatim>\<open>Sensor ready\<close>, a system
  message, stops it.
\<close>

theorem ingest_aborts_on_system_message:
  "is_system_message (ustr ''Sensor ready'')
   \<and> stopped (ingest ascii_nd (replicate 9 (Some (ustr ''??''), 0)) (started db_healthy)) = None
   \<and> stopped (ingest ascii_nd (replicate 9 (Some (ustr ''??''), 0) @ [(Some (ustr ''Sensor ready''), 0)])
         (started db_healthy)) = Some Aborted"
proof -
  let ?st = "started db_healthy"
  have 9: "ingest ascii_nd (replicate 9 (Some (ustr ''??''), 0)) ?st = ?st\<lparr>consecutive_errors := 9\<rparr>"
    using ingest_unparsed[OF _ noise_unparsed noise_no_message, of ?st 9 0]
    by (simp add: started_def ustr_def)
  have "loop_body ascii_nd (Some (ustr ''Sensor ready''), 0) (?st\<lparr>consecutive_errors := 9\<rparr>)
      = ?st\<lparr>consecutive_errors := 10, stopped := Some Aborted\<rparr>"
    using loop_body_unparsed[OF _ ready_unparsed, of 0 "?st\<lparr>consecutive_errors := 9\<rparr>"]
    by (simp add: ustr_def)
  then show ?thesis
    using 9 ready_message by (simp add: ingest_append started_def)
qed


text \<open>
  The rows of the table: every step of the database and of the loop only appends rows,
  and what it appends is the pending rows and the row of the reading being saved.
\<close>

lemma write_reading_rows:
  assumes "write_reading row d = (res, d')"
  shows "(sensor_readings d' = sensor_readings d \<or> sensor_readings d' = sensor_readings d @ pending d @ [row])
    \<and> set (pending d') \<subseteq> set (pending d) \<union> {row}"
  using assms
  by (auto simp: write_reading_def on_error_def next_outcome_def
      split: list.splits outcome.splits if_splits)

lemma rows_step:
  assumes "T' = T \<or> T' = T @ P2 @ [row]" and "set P' \<subseteq> set P2 \<union> {row}" and "set P2 \<subseteq> set P"
  shows "\<exists>new. T' = T @ new \<and> set new \<subseteq> set P \<union> {row} \<and> set P' \<subseteq> set P \<union> {row}"
  using assms(1)
proof
  assume "T' = T"
  with assms(2,3) have "T' = T @ [] \<and> set [] \<subseteq> set P \<union> {row} \<and> set P' \<subseteq> set P \<union> {row}"
    by auto
  then show ?thesis by blast
next
  assume "T' = T @ P2 @ [row]"
  with assms(2,3) have "T' = T @ (P2 @ [row]) \<and> set (P2 @ [row]) \<subseteq> set P \<union> {row}
      \<and> set P' \<subseteq> set P \<union> {row}"
    by auto
  then show ?thesis by blast
qed

lemma save_sensor_data_rows:
  assumes "save_sensor_data now ph orp ntu d = (res, d')"
  shows "\<exists>new. sensor_readings d' = sensor_readings d @ new
      \<and> set new \<subseteq> set (pending d) \<union> {reading_row now ph orp ntu}
      \<and> set (pending d') \<subseteq> set (pending d) \<union> {reading_row now ph orp ntu}"
proof -
  let ?row = "reading_row now ph orp ntu"
  obtain ok d1 where c: "check_connection d = (ok, d1)" by (cases "check_connection d")
  obtain re d2 where r: "reconnect d1 = (re, d2)" by (cases "reconnect d1")
  note f1 = check_connection_frame[OF c]
  note f2 = reconnect_frame[OF r] reconnect_pending[OF r]
  have "save_sensor_data now ph orp ntu d
      = (if ok then write_reading ?row d1
         else if re then write_reading ?row d2 else (Inr False, d2))"
    by (cases ok; cases re) (simp_all add: save_sensor_data_def c r)
  with assms have e: "(if ok then write_reading ?row d1
            else if re then write_reading ?row d2 else (Inr False, d2)) = (res, d')"
    by simp
  consider (a) "ok" "write_reading ?row d1 = (res, d')"
    | (b) "\<not> ok" "re" "write_reading ?row d2 = (res, d')"
    | (c) "\<not> ok" "\<not> re" "d' = d2"
    using e by (cases ok; cases re) simp_all
  then show ?thesis
  proof cases
    case a
    from write_reading_rows[OF a(2)] f1 show ?thesis
      by (intro rows_step[of _ _ "pending d"]) simp_all
  next
    case b
    from write_reading_rows[OF b(3)] f1 f2 show ?thesis
      by (intro rows_step[of _ _ "pending d2"]) simp_all
  next
    case c
    with f1 f2 have "sensor_readings d' = sensor_readings d @ []
        \<and> set [] \<subseteq> set (pending d) \<union> {?row} \<and> set (pending d') \<subseteq> set (pending d) \<union> {?row}"
      by auto
    then show ?thesis by blast
  qed
qed

lemma measured_reading_row:
  "measured (reading_row now ph orp ntu) = (ph \<noteq> None \<or> orp \<noteq> None \<or> ntu \<noteq> None)"
  by (simp add: measured_def reading_row_def)

lemma loop_body_rows:
  assumes "\<forall>r\<in>set (pending (database st)). measured r"
  shows "\<exists>new. sensor_readings (database (loop_body nd inp st)) = sensor_readings (database st) @ new
      \<and> (\<forall>r\<in>set new. measured r)
      \<and> (\<forall>r\<in>set (pending (database (loop_body nd inp st))). measured r)"
proof -
  obtain line now where inp: "inp = (line, now)" by (cases inp)
  obtain ph orp ntu where p: "parse_sensor_data nd line = (ph, orp, ntu)"
    by (cases "parse_sensor_data nd line") auto
  show ?thesis
  proof (cases "line \<noteq> None \<and> line \<noteq> Some [] \<and> (ph \<noteq> None \<or> orp \<noteq> None \<or> ntu \<noteq> None)")
    case True
    then obtain raw where raw: "line = Some raw" "raw \<noteq> []" by auto
    obtain res d' where s: "save_sensor_data now ph orp ntu (database st) = (res, d')"
      by (cases "save_sensor_data now ph orp ntu (database st)")
    have d: "database (loop_body nd inp st) = d'"
      using True raw p s inp by (cases res) (simp_all add: loop_body_def Let_def)
    from save_sensor_data_rows[OF s] obtain new where
      n: "sensor_readings d' = sensor_readings (database st) @ new"
        "set new \<subseteq> set (pending (database st)) \<union> {reading_row now ph orp ntu}"
        "set (pending d') \<subseteq> set (pending (database st)) \<union> {reading_row now ph orp ntu}"
      by blast
    have "measured (reading_row now ph orp ntu)" using True by (simp add: measured_reading_row)
    with n assms have "(\<forall>r\<in>set new. measured r) \<and> (\<forall>r\<in>set (pending d'). measured r)" by blast
    with n(1) d show ?thesis by auto
  next
    case False
    then have "database (loop_body nd inp st) = database st"
      using inp p by (auto simp: loop_body_def Let_def split: option.splits)
    with assms show ?thesis by simp
  qed
qed

lemma ingest_rows:
  assumes "\<forall>r\<in>set (pending (database st)). measured r"
  shows "\<exists>new. sensor_readings (database (ingest nd inps st)) = sensor_readings (database st) @ new
      \<and> (\<forall>r\<in>set new. measured r)"
  using assms
proof (induction inps arbitrary: st)
  case Nil
  then show ?case by simp
next
  case (Cons inp inps)
  show ?case
  proof (cases "stopped st")
    case (Some a)
    then show ?thesis by simp
  next
    case None
    from loop_body_rows[OF Cons.prems, of nd inp] obtain new1 where
      1: "sensor_readings (database (loop_body nd inp st)) = sensor_readings (database st) @ new1"
        "\<forall>r\<in>set new1. measured r"
        "\<forall>r\<in>set (pending (database (loop_body nd inp st))). measured r" by blast
    from Cons.IH[OF 1(3)] obtain new2 where
      2: "sensor_readings (database (ingest nd inps (loop_body nd inp st)))
          = sensor_readings (database (loop_body nd inp st)) @ new2"
        "\<forall>r\<in>set new2. measured r" by blast
    from 1 2 None have "sensor_readings (database (ingest nd (inp # inps) st))
        = sensor_readings (database st) @ (new1 @ new2) \<and> (\<forall>r\<in>set (new1 @ new2). measured r)"
      by auto
    then show ?thesis by blast
  qed
qed

lemma loop_body_turbidity_only:
  assumes "raw \<noteq> []" and "parse_sensor_data nd (Some raw) = (None, None, Some n)"
    and "connection (database st) = Some Open" and "script (database st) = []"
    and "pending (database st) = []"
  shows "sensor_readings (database (loop_body nd (Some raw, now) st))
     = sensor_readings (database st)
       @ [\<lparr>timestamp = now, ph_value = None, orp_value = None, ntu_value = Some n,
           ph_status = None, orp_status = None, water_quality_good = None\<rparr>]"
  using assms
  by (simp add: loop_body_def Let_def db_defs reading_row_def ph_status_of_def orp_status_of_def
      is_water_quality_good_def)

text \<open>
  Claim C3. Every row the ingestion loop persists has at least one of its three
  measurements: whatever the serial line and the database do, the table after the loop
  is the table before it followed by rows that each hold a measurement. A reading with
  only the turbidity present is persisted, on a healthy connection, as a row with its
  turbidity, no acidity, no redox potential, no status labels and no quality flag.
\<close>

theorem persisted_rows_are_measured:
  assumes "pending (database st) = []"
  shows "(\<exists>new. sensor_readings (database (ingest nd inps st)) = sensor_readings (database st) @ new
           \<and> (\<forall>r\<in>set new. ph_value r \<noteq> None \<or> orp_value r \<noteq> None \<or> ntu_value r \<noteq> None))
    \<and> (raw \<noteq> [] \<and> parse_sensor_data nd (Some raw) = (None, None, Some n)
         \<and> connection (database st) = Some Open \<and> script (database st) = []
       \<longrightarrow> sensor_readings (database (loop_body nd (Some raw, now) st))
           = sensor_readings (database st)
             @ [\<lparr>timestamp = now, ph_value = None, orp_value = None, ntu_value = Some n,
                 ph_status = None, orp_status = None, water_quality_good = None\<rparr>])"
  using ingest_rows[of st nd inps] loop_body_turbidity_only[of raw nd n st now] assms
  by (simp add: measured_def)

lemma turbidity_parsed: "parse_sensor_data ascii_nd (Some (ustr ''NTU: 12'')) = (None, None, Some 12)"
  by (simp add: parse_defs)

theorem persisted_rows_are_measured_witness:
  "sensor_readings (database (loop_body ascii_nd (Some (ustr ''NTU: 12''), 5) (started db_healthy)))
   = [\<lparr>timestamp = 5, ph_value = None, orp_value = None, ntu_value = Some 12,
       ph_status = None, orp_status = None, water_quality_good = None\<rparr>]
   \<and> (\<exists>new. sensor_readings (database (ingest ascii_nd [(Some (ustr ''NTU: 12''), 5)] (started db_healthy)))
           = new
        \<and> list_all (\<lambda>r. ph_value r \<noteq> None \<or> orp_value r \<noteq> None \<or> ntu_value r \<noteq> None) new)"
  using persisted_rows_are_measured[of "started db_healthy" ascii_nd "[(Some (ustr ''NTU: 12''), 5)]"
      "ustr ''NTU: 12''" 12 5] turbidity_parsed
  by (simp add: started_def db_healthy_def ustr_def list_all_iff)



section \<open>Properties of safe_decode\<close>

lemmas decode_defs = safe_decode_def encoding_list_def decode_def replacement_def strip_def
  is_space_def

lemma decode_no_other:
  assumes "\<forall>enc e raw. cjk enc e raw \<noteq> Inl Other_Exception"
  shows "decode cjk enc e raw \<noteq> Inl Other_Exception"
  using assms by (cases enc) (simp_all add: decode_def)

lemma try_encodings_returns:
  assumes "\<forall>enc e raw. cjk enc e raw \<noteq> Inl Other_Exception"
  shows "\<exists>calls' r. try_encodings cjk encs raw calls = (calls', Inr r)"
proof (induction encs arbitrary: calls)
  case Nil
  then show ?case by simp
next
  case (Cons enc encs)
  show ?case
  proof (cases "decode cjk enc Ignore raw")
    case (Inl e)
    with decode_no_other[OF assms, of enc Ignore raw] Cons.IH[of "calls @ [(enc, Ignore)]"]
    show ?thesis by (cases e) auto
  next
    case (Inr decoded)
    with Cons.IH[of "calls @ [(enc, Ignore)]"] show ?thesis by auto
  qed
qed

lemma try_encodings_calls:
  "length (fst (try_encodings cjk encs raw calls)) \<le> length calls + length encs"
proof (induction encs arbitrary: calls)
  case Nil
  then show ?case by simp
next
  case (Cons enc encs)
  have "length (fst (try_encodings cjk encs raw (calls @ [(enc, Ignore)]))) \<le> length calls + 1 + length encs"
    using Cons.IH[of "calls @ [(enc, Ignore)]"] by simp
  then show ?case
    by (auto split: sum.splits decode_exn.splits)
qed

lemma safe_decode_cases:
  assumes "try_encodings cjk encoding_list raw [] = (calls, Inr r)" and "raw \<noteq> []"
  shows "(\<exists>s. safe_decode cjk (Some raw) = (calls, Inr s))
       \<or> (\<exists>s. safe_decode cjk (Some raw) = (calls @ [(UTF_8, Replace)], Inr s))
       \<or> (\<exists>tx. safe_decode cjk (Some raw)
             = (calls @ [(UTF_8, Replace), (Latin1, Ignore)], Inr (filter printable tx)))"
proof (cases r)
  case (Some decoded)
  with assms show ?thesis by (simp add: safe_decode_def)
next
  case None
  show ?thesis
  proof (cases "strip (utf8_decode [65533] (map unat raw)) = []")
    case True
    with None assms have "safe_decode cjk (Some raw)
        = (calls @ [(UTF_8, Replace), (Latin1, Ignore)],
           Inr (filter printable (strip (map unat raw))))"
      by (simp add: safe_decode_def decode_def replacement_def)
    then show ?thesis by blast
  next
    case False
    with None assms have "safe_decode cjk (Some raw)
        = (calls @ [(UTF_8, Replace)], Inr (strip (utf8_decode [65533] (map unat raw))))"
      by (simp add: safe_decode_def decode_def replacement_def)
    then show ?thesis by blast
  qed
qed

text \<open>
  Claim C1, as amended. For every byte sequence \<^verbatim>\<open>safe_decode\<close> returns a string and
  raises nothing; for an absent or empty input it returns the empty string at once,
  with no call of \<^verbatim>\<open>decode\<close>; and the string it returns holds no character below
  code point 32 other than tab, newline and carriage return when it comes from the last
  fallback, the only step that filters (the step reached after the seven calls of
  \<^verbatim>\<open>decode\<close>). The codecs of Big5 and GB2312 are any functions that raise nothing but
  the two exceptions the loop catches.
\<close>

theorem safe_decode_defined:
  assumes "\<forall>enc e raw. cjk enc e raw \<noteq> Inl Other_Exception"
  shows "(\<exists>s. snd (safe_decode cjk raw_data) = Inr s)
    \<and> safe_decode cjk None = ([], Inr [])
    \<and> safe_decode cjk (Some []) = ([], Inr [])
    \<and> (\<forall>calls s. safe_decode cjk raw_data = (calls, Inr s) \<and> length calls = 7
          \<longrightarrow> (\<forall>c\<in>set s. c \<ge> 32 \<or> c = 9 \<or> c = 10 \<or> c = 13))"
proof (cases "raw_data = None \<or> raw_data = Some []")
  case True
  then show ?thesis by (auto simp: safe_decode_def)
next
  case False
  then obtain raw where raw: "raw_data = Some raw" "raw \<noteq> []" by auto
  obtain calls r where t: "try_encodings cjk encoding_list raw [] = (calls, Inr r)"
    using try_encodings_returns[OF assms] by blast
  have len: "length calls \<le> 5"
    using try_encodings_calls[of cjk encoding_list raw "[]"] t by (simp add: encoding_list_def)
  from safe_decode_cases[OF t raw(2)] show ?thesis
  proof (elim disjE exE)
    fix s assume "safe_decode cjk (Some raw) = (calls, Inr s)"
    with raw len show ?thesis by (auto simp: safe_decode_def)
  next
    fix s assume "safe_decode cjk (Some raw) = (calls @ [(UTF_8, Replace)], Inr s)"
    with raw len show ?thesis by (auto simp: safe_decode_def)
  next
    fix tx assume "safe_decode cjk (Some raw)
        = (calls @ [(UTF_8, Replace), (Latin1, Ignore)], Inr (filter printable tx))"
    with raw show ?thesis by (auto simp: safe_decode_def printable_def)
  qed
qed

theorem safe_decode_defined_witness:
  "safe_decode ascii_part (Some [32, 10])
     = ([(UTF_8, Ignore), (Big5, Ignore), (GB2312, Ignore), (ASCII, Ignore), (Latin1, Ignore),
         (UTF_8, Replace), (Latin1, Ignore)], Inr [])
   \<and> safe_decode ascii_part None = ([], Inr [])"
proof -
  have "\<forall>enc e raw. ascii_part enc e raw \<noteq> Inl Other_Exception"
    by (simp add: ascii_part_def)
  from safe_decode_defined[OF this, of "Some [32, 10]"] show ?thesis
    by (simp add: decode_defs ascii_part_def)
qed

lemma safe_decode_unfiltered:
  "safe_decode cjk (Some [97, 1, 98]) = ([(UTF_8, Ignore)], Inr [97, 1, 98])"
  by (simp add: decode_defs)

text \<open>
  Claim C1 as stated asks for a string without control characters on every input. The
  text that the first candidate encoding decodes is returned after \<^verbatim>\<open>strip\<close> alone:
  the three bytes \<^verbatim>\<open>a\<close>, 1, \<^verbatim>\<open>b\<close> are valid UTF-8, so they are returned with the
  control character U+0001 in the middle, whatever the other codecs do.
\<close>

theorem safe_decode_control_character:
  "safe_decode ascii_part (Some [97, 1, 98]) = ([(UTF_8, Ignore)], Inr [97, 1, 98])
   \<and> \<not> ((1::nat) \<ge> 32 \<or> (1::nat) = 9 \<or> (1::nat) = 10 \<or> (1::nat) = 13)"
  by (simp add: decode_defs)



section \<open>Properties of the cache of the latest reading\<close>

lemma deref_alloc:
  "alloc d s = (a, s') \<Longrightarrow> deref s' a = d"
  "alloc d s = (a, s') \<Longrightarrow> b < length (objects s) \<Longrightarrow> deref s' b = deref s b"
  by (auto simp: alloc_def deref_def nth_append)

lemma alloc_frame:
  "alloc d s = (a, s') \<Longrightarrow> cached_data s' = cached_data s \<and> last_cache_time s' = last_cache_time s
     \<and> connections s' = connections s \<and> a = length (objects s)"
  by (auto simp: alloc_def)

lemma read_latest_data_hit:
  assumes "cached_entry s t = Some a"
  shows "read_latest_data w t s = (a, s)"
  using assms by (simp add: read_latest_data_def)

lemma read_latest_data_fetched:
  assumes "cached_entry s t = None" and "fetchrow w (connections s) = Fetched (Some row)"
    and "read_latest_data w t s = (a, s')"
  shows "deref s' a = format_result w row t \<and> cached_data s' = Some a \<and> last_cache_time s' = Some t
    \<and> connections s' = connections s + 1"
  using assms
  by (auto simp: read_latest_data_def Let_def alloc_def deref_def)

lemma read_latest_data_failed:
  assumes "cached_entry s t = None"
    and "fetchrow w (connections s) = Refused \<or> fetchrow w (connections s) = Failed e"
    and "read_latest_data w t s = (a, s')"
  shows "has_key (deref s' a) (ustr ''error'') \<and> cached_data s' = cached_data s
    \<and> last_cache_time s' = last_cache_time s \<and> connections s' = connections s + 1
    \<and> (\<forall>b < length (objects s). deref s' b = deref s b)"
  using assms
  by (auto simp: read_latest_data_def Let_def alloc_def deref_def has_key_def nth_append)

lemma read_latest_data_no_row:
  assumes "cached_entry s t = None" and "fetchrow w (connections s) = Fetched None"
    and "read_latest_data w t s = (a, s')"
  shows "deref s' a = [(ustr ''message'', JStr msg_no_data), (ustr ''data'', JList [])]"
    and "cached_data s' = cached_data s" and "last_cache_time s' = last_cache_time s"
    and "a = length (objects s)"
    and "objects s' = objects s @ [[(ustr ''message'', JStr msg_no_data), (ustr ''data'', JList [])]]"
  using assms
  by (auto simp: read_latest_data_def Let_def alloc_def deref_def)

lemma format_result_nonempty: "format_result w row t \<noteq> []"
  by (simp add: format_result_def)

lemma cached_entry_after_fetch:
  assumes "deref s a = format_result w row t0" and "cached_data s = Some a"
    and "last_cache_time s = Some t0"
  shows "cached_entry s t = (if total_seconds (t - t0) < 5 then Some a else None)"
  using assms by (simp add: cached_entry_def cache_duration_def format_result_nonempty)

lemmas api_defs = read_latest_data_def cached_entry_def alloc_def deref_def cache_duration_def
  total_seconds_def Let_def

text \<open>
  Claim C8. After a successful fetch at time \<open>t0\<close>, which stored its result \<open>a\<close> in
  the cache: any call less than 5 seconds after \<open>t0\<close> returns the same object \<open>a\<close> and
  leaves the whole state as it is, so it asks the store for nothing, and so does a second
  such call after it; a call 5 seconds or more after \<open>t0\<close> asks the store once, and when
  the store answers with a row the result formatted from that row is returned and
  replaces the cache entry, stamped with the time of the call; when the connection is
  refused or the query fails the call returns a result with the key \<^verbatim>\<open>error\<close>, and the
  cached reference, its object and its time stamp are as before.
\<close>

theorem latest_reading_cache:
  assumes "cached_entry s0 t0 = None" and "fetchrow w (connections s0) = Fetched (Some row)"
    and "read_latest_data w t0 s0 = (a, s)"
  shows "(total_seconds (t1 - t0) < 5 \<and> total_seconds (t2 - t0) < 5 \<longrightarrow>
            read_latest_data w t1 s = (a, s)
            \<and> read_latest_data w t2 (snd (read_latest_data w t1 s)) = (a, s))
    \<and> (total_seconds (t1 - t0) \<ge> 5 \<longrightarrow>
            connections (snd (read_latest_data w t1 s)) = connections s + 1)
    \<and> (total_seconds (t1 - t0) \<ge> 5 \<and> fetchrow w (connections s) = Fetched (Some row') \<longrightarrow>
            deref (snd (read_latest_data w t1 s)) (fst (read_latest_data w t1 s))
              = format_result w row' t1
            \<and> cached_data (snd (read_latest_data w t1 s)) = Some (fst (read_latest_data w t1 s))
            \<and> last_cache_time (snd (read_latest_data w t1 s)) = Some t1)
    \<and> (total_seconds (t1 - t0) \<ge> 5
         \<and> (fetchrow w (connections s) = Refused \<or> fetchrow w (connections s) = Failed e) \<longrightarrow>
            has_key (deref (snd (read_latest_data w t1 s)) (fst (read_latest_data w t1 s)))
              (ustr ''error'')
            \<and> cached_data (snd (read_latest_data w t1 s)) = Some a
            \<and> last_cache_time (snd (read_latest_data w t1 s)) = Some t0
            \<and> deref (snd (read_latest_data w t1 s)) a = format_result w row t0)"
proof -
  note f = read_latest_data_fetched[OF assms]
  have ce: "\<And>t. cached_entry s t = (if total_seconds (t - t0) < 5 then Some a else None)"
    using cached_entry_after_fetch[of s a w row t0] f by simp
  have a_valid: "a < length (objects s)"
    using f format_result_nonempty[of w row t0] by (auto simp: deref_def split: if_splits)
  obtain a1 s1 where r: "read_latest_data w t1 s = (a1, s1)" by (cases "read_latest_data w t1 s")
  have 1: "total_seconds (t1 - t0) < 5 \<and> total_seconds (t2 - t0) < 5 \<longrightarrow>
            read_latest_data w t1 s = (a, s)
            \<and> read_latest_data w t2 (snd (read_latest_data w t1 s)) = (a, s)"
    using ce by (simp add: read_latest_data_hit)
  have 2: "total_seconds (t1 - t0) \<ge> 5 \<longrightarrow> connections s1 = connections s + 1"
    using ce[of t1] r
    by (auto simp: read_latest_data_def Let_def alloc_def split: latest_reply.splits option.splits)
  have 3: "total_seconds (t1 - t0) \<ge> 5 \<and> fetchrow w (connections s) = Fetched (Some row') \<longrightarrow>
      deref s1 a1 = format_result w row' t1 \<and> cached_data s1 = Some a1 \<and> last_cache_time s1 = Some t1"
    using ce[of t1] read_latest_data_fetched[of s t1 w row' a1 s1] r by simp
  have 4: "total_seconds (t1 - t0) \<ge> 5
         \<and> (fetchrow w (connections s) = Refused \<or> fetchrow w (connections s) = Failed e) \<longrightarrow>
      has_key (deref s1 a1) (ustr ''error'') \<and> cached_data s1 = Some a
      \<and> last_cache_time s1 = Some t0 \<and> deref s1 a = format_result w row t0"
    using ce[of t1] read_latest_data_failed[of s t1 w e a1 s1] r f a_valid by auto
  show ?thesis using 1 2 3 4 r by auto
qed


theorem latest_reading_cache_witness:
  "read_latest_data world_example 3000000 (snd (read_latest_data world_example 0 api_start))
     = (0, snd (read_latest_data world_example 0 api_start))
   \<and> connections (snd (read_latest_data world_example 3000000
         (snd (read_latest_data world_example 0 api_start)))) = 1
   \<and> connections (snd (read_latest_data world_example 5000000
         (snd (read_latest_data world_example 0 api_start)))) = 2
   \<and> cached_data (snd (read_latest_data world_example 5000000
         (snd (read_latest_data world_example 0 api_start)))) = Some 0
   \<and> last_cache_time (snd (read_latest_data world_example 5000000
         (snd (read_latest_data world_example 0 api_start)))) = Some 0"
proof -
  have 1: "cached_entry api_start 0 = None"
    by (simp add: cached_entry_def api_start_def)
  have 2: "fetchrow world_example (connections api_start) = Fetched (Some (row_example 100))"
    by (simp add: world_example_def api_start_def)
  have 3: "fst (read_latest_data world_example 0 api_start) = 0"
    "connections (snd (read_latest_data world_example 0 api_start)) = 1"
    by (simp_all add: api_defs api_start_def world_example_def)
  have 4: "fetchrow world_example 1 = Refused"
    by (simp add: world_example_def)
  from latest_reading_cache [OF 1 2 surjective_pairing, of 3000000 3000000]
    latest_reading_cache [OF 1 2 surjective_pairing, of 5000000]
    3 4
  show ?thesis by (simp add: total_seconds_def)
qed

text \<open>
  Claim C10. When the latest row is asked of the store and the table has none,
  \<^verbatim>\<open>read_latest_data\<close> returns the dictionary with the keys \<^verbatim>\<open>message\<close> and \<^verbatim>\<open>data\<close>
  (an empty list), which has none of the keys \<^verbatim>\<open>error\<close>, \<^verbatim>\<open>status\<close> and
  \<^verbatim>\<open>latest_data\<close>, and leaves the cache entry and its time stamp as they are;
  \<^verbatim>\<open>GET /data\<close> then raises no \<^verbatim>\<open>HTTPException\<close> and returns that dictionary, with
  the key \<^verbatim>\<open>total_records\<close> added, as a successful response.
\<close>

theorem empty_table_third_shape:
  assumes "cached_entry s t = None" and "fetchrow w (connections s) = Fetched None"
  shows "deref (snd (read_latest_data w t s)) (fst (read_latest_data w t s))
       = [(ustr ''message'', JStr msg_no_data), (ustr ''data'', JList [])]
    \<and> \<not> has_key (deref (snd (read_latest_data w t s)) (fst (read_latest_data w t s))) (ustr ''error'')
    \<and> \<not> has_key (deref (snd (read_latest_data w t s)) (fst (read_latest_data w t s))) (ustr ''status'')
    \<and> \<not> has_key (deref (snd (read_latest_data w t s)) (fst (read_latest_data w t s)))
          (ustr ''latest_data'')
    \<and> cached_data (snd (read_latest_data w t s)) = cached_data s
    \<and> last_cache_time (snd (read_latest_data w t s)) = last_cache_time s
    \<and> (\<exists>a n. fst (get_data w t s) = Inr a
          \<and> deref (snd (get_data w t s)) a
              = [(ustr ''message'', JStr msg_no_data), (ustr ''data'', JList []),
                 (ustr ''total_records'', JInt n)]
          \<and> cached_data (snd (get_data w t s)) = cached_data s
          \<and> last_cache_time (snd (get_data w t s)) = last_cache_time s)"
proof -
  let ?d = "[(ustr ''message'', JStr msg_no_data), (ustr ''data'', JList [])]"
  obtain a s1 where r: "read_latest_data w t s = (a, s1)" by (cases "read_latest_data w t s")
  note n = read_latest_data_no_row[OF assms r]
  note da = n(1) and cd = n(2) and lt = n(3) and al = n(4) and ob = n(5)
  have keys: "\<not> has_key ?d (ustr ''error'')" "\<not> has_key ?d (ustr ''status'')"
    "\<not> has_key ?d (ustr ''latest_data'')" "\<not> has_key ?d (ustr ''total_records'')"
    by (simp_all add: has_key_def ustr_def)
  obtain c s2 where g: "get_total_count w s1 = (c, s2)" by (cases "get_total_count w s1")
  have s2: "objects s2 = objects s1" "cached_data s2 = cached_data s1"
    "last_cache_time s2 = last_cache_time s1"
    using g by (auto simp: get_total_count_def Let_def split: count_reply.splits option.splits)
  have e: "map_of (deref s1 a) (ustr ''error'') = None"
    unfolding da using keys(1) by (simp add: has_key_def)
  have gd: "get_data w t s
      = (Inr a, s2\<lparr>objects := (objects s2)[a := set_item (deref s2 a) (ustr ''total_records'') (JInt c)]\<rparr>)"
    using r g e by (simp add: get_data_def)
  have "deref s2 a = deref s1 a" by (simp add: deref_def s2(1))
  then have d2: "deref s2 a = ?d" using da by simp
  have lenb: "a < length (objects s2)" using al ob s2(1) by simp
  have "deref (s2\<lparr>objects := (objects s2)[a := set_item (deref s2 a) (ustr ''total_records'') (JInt c)]\<rparr>) a
      = set_item ?d (ustr ''total_records'') (JInt c)"
    using lenb unfolding d2 by (simp add: deref_def)
  also have "\<dots> = ?d @ [(ustr ''total_records'', JInt c)]"
    using keys(4) by (simp add: set_item_def)
  finally have "fst (get_data w t s) = Inr a
          \<and> deref (snd (get_data w t s)) a
              = [(ustr ''message'', JStr msg_no_data), (ustr ''data'', JList []),
                 (ustr ''total_records'', JInt c)]
          \<and> cached_data (snd (get_data w t s)) = cached_data s
          \<and> last_cache_time (snd (get_data w t s)) = last_cache_time s"
    unfolding gd using cd lt s2 by simp
  then have last: "\<exists>a n. fst (get_data w t s) = Inr a
          \<and> deref (snd (get_data w t s)) a
              = [(ustr ''message'', JStr msg_no_data), (ustr ''data'', JList []),
                 (ustr ''total_records'', JInt n)]
          \<and> cached_data (snd (get_data w t s)) = cached_data s
          \<and> last_cache_time (snd (get_data w t s)) = last_cache_time s"
    by blast
  have first: "deref (snd (read_latest_data w t s)) (fst (read_latest_data w t s)) = ?d"
    "cached_data (snd (read_latest_data w t s)) = cached_data s"
    "last_cache_time (snd (read_latest_data w t s)) = last_cache_time s"
    unfolding r using da cd lt by simp_all
  show ?thesis
    unfolding first using keys(1,2,3) last by simp
qed

theorem empty_table_third_shape_witness:
  "deref (snd (read_latest_data world_empty 0 api_start)) (fst (read_latest_data world_empty 0 api_start))
     = [(ustr ''message'', JStr msg_no_data), (ustr ''data'', JList [])]
   \<and> cached_data (snd (read_latest_data world_empty 0 api_start)) = None
   \<and> fst (get_data world_empty 0 api_start) = Inr 0
   \<and> deref (snd (get_data world_empty 0 api_start)) 0
       = [(ustr ''message'', JStr msg_no_data), (ustr ''data'', JList []),
          (ustr ''total_records'', JInt 0)]"
proof -
  have 1: "cached_entry api_start 0 = None"
    by (simp add: cached_entry_def api_start_def)
  have 2: "fetchrow world_empty (connections api_start) = Fetched None"
    by (simp add: world_empty_def)
  have 3: "get_data world_empty 0 api_start
      = (Inr 0, \<lparr>objects = [[(ustr ''message'', JStr msg_no_data), (ustr ''data'', JList []),
                 (ustr ''total_records'', JInt 0)]],
               cached_data = None, last_cache_time = None, connections = 2\<rparr>)"
    by (simp add: get_data_def get_total_count_def api_defs api_start_def world_empty_def
        set_item_def has_key_def ustr_def)
  from empty_table_third_shape [OF 1 2] 3 show ?thesis
    by (simp add: api_start_def deref_def)
qed



section \<open>Properties of the stream of changes\<close>

lemma key_names:
  "ustr ''error'' \<noteq> ustr ''latest_data''" "ustr ''latest_data'' \<noteq> ustr ''error''"
  "ustr ''latest_data'' \<noteq> ustr ''timestamp''" "ustr ''error'' \<noteq> ustr ''timestamp''"
  by (simp_all add: ustr_def)

lemma is_data_event_simps:
  "is_data_event (replace_event w latest_data now)"
  "\<not> is_data_event (error_event w detail now)"
  "is_error_event (error_event w detail now)"
  by (simp_all add: is_data_event_def is_error_event_def replace_event_def error_event_def
      has_key_def ustr_def)

lemma publish_error:
  assumes "has_key data (ustr ''error'')"
  shows "\<exists>detail. publish w now data last_sent = ([error_event w detail now], last_sent)"
  using assms by (auto simp: publish_def has_key_def)

lemma publish_same:
  assumes "\<not> has_key data (ustr ''error'')" and "current_data_key w data = Inr k" and "k = last_sent"
  shows "publish w now data last_sent = ([], last_sent)"
  using assms by (auto simp: publish_def has_key_def)

lemma publish_changed:
  assumes "\<not> has_key data (ustr ''error'')" and "current_data_key w data = Inr k"
    and "k \<noteq> last_sent" and "map_of data (ustr ''latest_data'') = Some latest_data"
  shows "publish w now data last_sent = ([replace_event w latest_data now], k)"
  using assms by (auto simp: publish_def has_key_def)

lemma publish_data_event:
  assumes "e \<in> set (fst (publish w now data last_sent))" and "is_data_event e"
  shows "\<exists>k. current_data_key w data = Inr k \<and> k \<noteq> last_sent \<and> snd (publish w now data last_sent) = k
      \<and> \<not> has_key data (ustr ''error'')"
  using assms
  by (auto simp: publish_def has_key_def is_data_event_simps split: option.splits sum.splits if_splits)

lemma current_data_key_reading:
  assumes "reading_at ts data"
  shows "current_data_key w data = Inr (JStr ts)"
  using assms
  by (auto simp: reading_at_def current_data_key_def truthy_def split: option.splits json.splits)

lemma current_data_key_fingerprint:
  assumes "map_of data (ustr ''latest_data'') = Some (JDict latest_data)"
    and "map_of latest_data (ustr ''timestamp'') = None
         \<or> (\<exists>v. map_of latest_data (ustr ''timestamp'') = Some v \<and> \<not> truthy v)"
  shows "current_data_key w data = Inr (JStr (dict_str w (JDict latest_data)))"
  using assms by (auto simp: current_data_key_def)

lemma publish_reading:
  assumes "reading_at ts data"
  shows "\<exists>latest_data. publish w now data last_sent
     = (if JStr ts \<noteq> last_sent then ([replace_event w latest_data now], JStr ts) else ([], last_sent))"
proof -
  from assms obtain ld where ld: "map_of data (ustr ''latest_data'') = Some ld"
    and ne: "\<not> has_key data (ustr ''error'')"
    by (auto simp: reading_at_def has_key_def split: option.splits json.splits)
  note k = current_data_key_reading[OF assms, of w]
  show ?thesis
  proof (cases "JStr ts = last_sent")
    case True
    with publish_same[OF ne k] show ?thesis by simp
  next
    case False
    with publish_changed[OF ne k _ ld] show ?thesis by auto
  qed
qed

lemma remdups_adj_length_pos: "length (remdups_adj (x # xs)) \<ge> 1"
  by (cases "remdups_adj (x # xs)") simp_all

lemma event_generator_readings:
  assumes "list_all2 reading_at ks (polled w turns s)"
  shows "list_all is_data_event (fst (event_generator w turns s last_sent))
    \<and> length (fst (event_generator w turns s last_sent))
        = length (remdups_adj (last_sent # map JStr ks)) - 1"
  using assms
proof (induction turns arbitrary: s last_sent ks)
  case Nil
  then show ?case by simp
next
  case (Cons turn turns)
  obtain a s1 where r: "read_latest_data w (fst turn) s = (a, s1)"
    by (cases "read_latest_data w (fst turn) s")
  from Cons.prems r obtain k ks' where ks: "ks = k # ks'" and rd: "reading_at k (deref s1 a)"
    and rest: "list_all2 reading_at ks' (polled w turns s1)"
    by (cases ks) auto
  from publish_reading[OF rd, of w "snd turn" last_sent] obtain ld where
    p: "publish w (snd turn) (deref s1 a) last_sent
        = (if JStr k \<noteq> last_sent then ([replace_event w ld (snd turn)], JStr k) else ([], last_sent))"
    by blast
  show ?case
  proof (cases "JStr k = last_sent")
    case True
    obtain evs s2 l2 where g: "event_generator w turns s1 last_sent = (evs, s2, l2)"
      by (cases "event_generator w turns s1 last_sent")
    have e: "fst (event_generator w (turn # turns) s last_sent) = evs"
      using r p True g by simp
    from Cons.IH[OF rest, of last_sent] g
    have "list_all is_data_event evs"
      "length evs = length (remdups_adj (last_sent # map JStr ks')) - 1" by simp_all
    with e True ks show ?thesis by simp
  next
    case False
    obtain evs s2 l2 where g: "event_generator w turns s1 (JStr k) = (evs, s2, l2)"
      by (cases "event_generator w turns s1 (JStr k)")
    have e: "fst (event_generator w (turn # turns) s last_sent) = replace_event w ld (snd turn) # evs"
      using r p False g by simp
    from Cons.IH[OF rest, of "JStr k"] g
    have ih: "list_all is_data_event evs"
      "length evs = length (remdups_adj (JStr k # map JStr ks')) - 1" by simp_all
    have "length (replace_event w ld (snd turn) # evs) = length (remdups_adj (JStr k # map JStr ks'))"
      using ih(2) remdups_adj_length_pos[of "JStr k" "map JStr ks'"] by simp
    with e False ks ih(1) show ?thesis
      by (simp add: is_data_event_simps)
  qed
qed

lemma remdups_adj_JStr: "length (remdups_adj (JNone # map JStr ks)) - 1 = length (remdups_adj ks)"
proof -
  have "remdups_adj (JNone # map JStr ks) = JNone # remdups_adj (map JStr ks)"
    by (cases ks) simp_all
  moreover have "remdups_adj (map JStr ks) = map JStr (remdups_adj ks)"
    by (rule remdups_adj_map_injective) (simp add: inj_on_def)
  ultimately show ?thesis by simp
qed

lemma distinct_remdups_adj_card:
  assumes "distinct (remdups_adj ks)"
  shows "length (remdups_adj ks) = card (set ks)"
  using assms distinct_card[of "remdups_adj ks"] by simp

lemma nat_str_nonempty: "nat_str n \<noteq> []"
  by (subst nat_str.simps) simp

lemma int_str_nonempty: "int_str i \<noteq> []"
  by (simp add: int_str_def nat_str_nonempty)

lemma reading_at_format_result:
  assumes "row_timestamp row = Some ts" and "isoformat w ts \<noteq> []"
  shows "reading_at (isoformat w ts) (format_result w row t)"
  using assms by (simp add: reading_at_def format_result_def opt_str_def ustr_def)

text \<open>
  Claim C9. In every turn of its loop the publisher of a connection yields a data event
  only if the identity key of the data differs from the key it sent last, and then that
  key becomes the key sent last; when the key equals the key sent last it yields
  nothing. The key is the timestamp of the reading when it has one, and the string of
  the payload otherwise. When the data carry an error it yields exactly one error event,
  whatever the key sent last, and does not change that key. Over the turns of a
  connection whose polls all return readings, every event is a data event and there is
  one event for each run of equal timestamps, which is one event for each distinct
  timestamp when no timestamp comes back after another (the latest row of a table that
  only grows).
\<close>

theorem stream_publishes_changes:
  "(has_key data (ustr ''error'') \<longrightarrow>
      (\<exists>e. publish w now data last_sent = ([e], last_sent) \<and> is_error_event e))
   \<and> (\<forall>e\<in>set (fst (publish w now data last_sent)). is_data_event e \<longrightarrow>
         (\<exists>k. current_data_key w data = Inr k \<and> k \<noteq> last_sent
              \<and> snd (publish w now data last_sent) = k))
   \<and> (\<not> has_key data (ustr ''error'') \<and> current_data_key w data = Inr last_sent \<longrightarrow>
         publish w now data last_sent = ([], last_sent))
   \<and> (reading_at ts data \<longrightarrow> current_data_key w data = Inr (JStr ts))
   \<and> (map_of data (ustr ''latest_data'') = Some (JDict latest_data)
        \<and> (map_of latest_data (ustr ''timestamp'') = None
            \<or> map_of latest_data (ustr ''timestamp'') = Some JNone) \<longrightarrow>
         current_data_key w data = Inr (JStr (dict_str w (JDict latest_data))))
   \<and> (list_all2 reading_at ks (polled w turns s) \<longrightarrow>
         list_all is_data_event (fst (event_generator w turns s JNone))
         \<and> length (fst (event_generator w turns s JNone)) = length (remdups_adj ks)
         \<and> (distinct (remdups_adj ks) \<longrightarrow>
               length (fst (event_generator w turns s JNone)) = card (set ks)))"
proof -
  have 1: "has_key data (ustr ''error'') \<longrightarrow>
      (\<exists>e. publish w now data last_sent = ([e], last_sent) \<and> is_error_event e)"
    using publish_error[of data w now last_sent] is_data_event_simps(3) by auto
  have 2: "\<forall>e\<in>set (fst (publish w now data last_sent)). is_data_event e \<longrightarrow>
         (\<exists>k. current_data_key w data = Inr k \<and> k \<noteq> last_sent
              \<and> snd (publish w now data last_sent) = k)"
    using publish_data_event[of _ w now data last_sent] by blast
  have 3: "\<not> has_key data (ustr ''error'') \<and> current_data_key w data = Inr last_sent \<longrightarrow>
         publish w now data last_sent = ([], last_sent)"
    using publish_same[of data w last_sent last_sent now] by simp
  have 4: "reading_at ts data \<longrightarrow> current_data_key w data = Inr (JStr ts)"
    using current_data_key_reading by simp
  have 5: "map_of data (ustr ''latest_data'') = Some (JDict latest_data)
        \<and> (map_of latest_data (ustr ''timestamp'') = None
            \<or> map_of latest_data (ustr ''timestamp'') = Some JNone) \<longrightarrow>
         current_data_key w data = Inr (JStr (dict_str w (JDict latest_data)))"
    using current_data_key_fingerprint[of data latest_data w] by (auto simp: truthy_def)
  have 6: "list_all2 reading_at ks (polled w turns s) \<longrightarrow>
         list_all is_data_event (fst (event_generator w turns s JNone))
         \<and> length (fst (event_generator w turns s JNone)) = length (remdups_adj ks)
         \<and> (distinct (remdups_adj ks) \<longrightarrow>
               length (fst (event_generator w turns s JNone)) = card (set ks))"
    using event_generator_readings[of ks w turns s JNone] remdups_adj_JStr[of ks]
      distinct_remdups_adj_card[of ks] by simp
  from 1 2 3 4 5 6 show ?thesis by blast
qed


theorem stream_publishes_changes_witness:
  "length (fst (event_generator world_example [(0, 1), (1000000, 1000001)] api_start JNone)) = 1
   \<and> (\<exists>e. publish world_example 7 [(ustr ''error'', JStr msg_no_connection)] (JStr (ustr ''x''))
            = ([e], JStr (ustr ''x'')) \<and> is_error_event e)"
proof -
  let ?d = "format_result world_example (row_example 100) 0"
  have p: "polled world_example [(0, 1), (1000000, 1000001)] api_start = [?d, ?d]"
    by (simp add: api_defs api_start_def world_example_def format_result_nonempty)
  have "reading_at (int_str 100) ?d"
    using reading_at_format_result[of "row_example 100" 100 world_example 0]
    by (simp add: row_example_def world_example_def int_str_nonempty)
  then have r: "list_all2 reading_at [int_str 100, int_str 100]
      (polled world_example [(0, 1), (1000000, 1000001)] api_start)"
    unfolding p by simp
  have h: "has_key [(ustr ''error'', JStr msg_no_connection)] (ustr ''error'')"
    by (simp add: has_key_def)
  from stream_publishes_changes [of "[(ustr ''error'', JStr msg_no_connection)]" world_example 7
      "JStr (ustr ''x'')" _ _ "[int_str 100, int_str 100]"
      "[(0, 1), (1000000, 1000001)]" api_start] r h
  show ?thesis by simp
qed


end
